theory Spec2Isabelle
  imports Main "HOL-Library.Word"
begin

unbundle bit_operations_syntax

section \<open>NES to PS/2 adapter (GamepadPS2.ino): shallow embedding\<close>

text \<open>
  The sketch keeps its whole state in globals and talks to three devices: the NES pad
  (read by \<^verbatim>\<open>readNES\<close>), the PS/2 wire (\<^verbatim>\<open>keyboard.write\<close>) and one EEPROM cell.
  The globals and what the devices have seen are the fields of one record that every
  function takes and returns. \<^verbatim>\<open>uint8_t\<close> is \<open>8 word\<close>, \<^verbatim>\<open>unsigned long\<close> (32 bits on
  the ATmega328P) is \<open>32 word\<close>. Where C promotes a \<^verbatim>\<open>uint8_t\<close> to \<^verbatim>\<open>int\<close> before
  computing, the model computes on \<open>nat\<close> or \<open>int\<close> and converts back.
\<close>

type_synonym u8 = "8 word"
type_synonym u32 = "32 word"

subsection \<open>Macros\<close>

abbreviation (input) NO_KEY :: u8 where "NO_KEY \<equiv> 0x00"
abbreviation (input) PAUSE_CODE :: u8 where "PAUSE_CODE \<equiv> 0xFE"
abbreviation (input) LAYOUT_COUNT :: u8 where "LAYOUT_COUNT \<equiv> 4"
abbreviation (input) EVENT_INTERVAL_US :: u32 where "EVENT_INTERVAL_US \<equiv> 2500"
abbreviation (input) QUEUE_SIZE :: nat where "QUEUE_SIZE \<equiv> 64"
abbreviation (input) BUTTON_COUNT :: nat where "BUTTON_COUNT \<equiv> 8"

abbreviation (input) PS2_A :: u8 where "PS2_A \<equiv> 0x1C"
abbreviation (input) PS2_B :: u8 where "PS2_B \<equiv> 0x32"
abbreviation (input) PS2_Q :: u8 where "PS2_Q \<equiv> 0x15"
abbreviation (input) PS2_M :: u8 where "PS2_M \<equiv> 0x3A"
abbreviation (input) PS2_N :: u8 where "PS2_N \<equiv> 0x31"
abbreviation (input) PS2_O :: u8 where "PS2_O \<equiv> 0x44"
abbreviation (input) PS2_P :: u8 where "PS2_P \<equiv> 0x4D"
abbreviation (input) PS2_0 :: u8 where "PS2_0 \<equiv> 0x45"
abbreviation (input) PS2_1 :: u8 where "PS2_1 \<equiv> 0x16"
abbreviation (input) PS2_2 :: u8 where "PS2_2 \<equiv> 0x1E"
abbreviation (input) PS2_3 :: u8 where "PS2_3 \<equiv> 0x26"
abbreviation (input) PS2_4 :: u8 where "PS2_4 \<equiv> 0x25"
abbreviation (input) PS2_5 :: u8 where "PS2_5 \<equiv> 0x2E"
abbreviation (input) PS2_6 :: u8 where "PS2_6 \<equiv> 0x36"
abbreviation (input) PS2_7 :: u8 where "PS2_7 \<equiv> 0x3D"
abbreviation (input) PS2_8 :: u8 where "PS2_8 \<equiv> 0x3E"
abbreviation (input) PS2_9 :: u8 where "PS2_9 \<equiv> 0x46"
abbreviation (input) PS2_ESC :: u8 where "PS2_ESC \<equiv> 0x76"
abbreviation (input) PS2_F1 :: u8 where "PS2_F1 \<equiv> 0x05"
abbreviation (input) PS2_ENTER :: u8 where "PS2_ENTER \<equiv> 0x5A"
abbreviation (input) PS2_EXT_LEFT :: u8 where "PS2_EXT_LEFT \<equiv> 0x6B"
abbreviation (input) PS2_EXT_RIGHT :: u8 where "PS2_EXT_RIGHT \<equiv> 0x74"
abbreviation (input) PS2_EXT_UP :: u8 where "PS2_EXT_UP \<equiv> 0x75"
abbreviation (input) PS2_EXT_DOWN :: u8 where "PS2_EXT_DOWN \<equiv> 0x72"

subsection \<open>Globals and devices\<close>

text \<open>
  The first nine fields are the sketch's globals. The last four record what the devices
  have seen: the EEPROM cell at \<^verbatim>\<open>EEPROM_ADDR\<close> and how often \<^verbatim>\<open>EEPROM.write\<close> ran, the
  bytes handed to \<^verbatim>\<open>keyboard.write\<close> in order, and the milliseconds spent in \<^verbatim>\<open>delay\<close>.
\<close>

record state =
  queue :: "u8 list"
  qHead :: u8
  qTail :: u8
  lastSendTime :: u32
  buttonState :: "bool list"
  layout :: u8
  swapAB :: bool
  selectMode :: bool
  lastNesState :: u8
  eeprom :: u8
  eepromWrites :: nat
  wire :: "u8 list"
  delayed :: nat

text \<open>
  Left out: the debug printing (compiled out, \<^verbatim>\<open>DEBUG\<close> is \<^verbatim>\<open>false\<close>), the pin traffic of
  \<^verbatim>\<open>readNES\<close> and the microsecond pauses, none of which touches a global.
\<close>

text \<open>
  What one pass of \<^verbatim>\<open>loop\<close> reads from outside: the mask \<^verbatim>\<open>readNES\<close> returns, the two
  readings of \<^verbatim>\<open>micros\<close> in \<^verbatim>\<open>processQueue\<close>, and whether the PS/2 clock and data lines
  ever read high for the two spin-waits of \<^verbatim>\<open>safeWrite\<close>.
\<close>

record cycle_input =
  nes :: u8
  now :: u32
  sentAt :: u32
  peerIdle :: bool

text \<open>The globals' initialisers; \<open>e\<close> is the byte the EEPROM holds at power-on.\<close>

definition initial :: "u8 \<Rightarrow> state" where
  "initial e =
     \<lparr>queue = replicate QUEUE_SIZE 0, qHead = 0, qTail = 0, lastSendTime = 0,
      buttonState = replicate BUTTON_COUNT False, layout = 2, swapAB = False,
      selectMode = False, lastNesState = 0xFF,
      eeprom = e, eepromWrites = 0, wire = [], delayed = 0\<rparr>"

definition nesBitIndex :: "u8 list" where
  "nesBitIndex = [0, 1, 2, 3, 4, 5, 6, 7]"

subsection \<open>Layout definitions\<close>

text \<open>Button order: [0]A, [1]B, [2]Select, [3]Start, [4]Up, [5]Down, [6]Left, [7]Right.\<close>

definition layout_QAOPM :: "u8 list" where
  "layout_QAOPM = [PS2_M, PS2_Q, PS2_ESC, PAUSE_CODE, PS2_Q, PS2_A, PS2_O, PS2_P]"

definition layout_QAOPM_ext :: "bool list" where
  "layout_QAOPM_ext = [False, False, False, False, False, False, False, False]"

definition layout_LeftSinclair :: "u8 list" where
  "layout_LeftSinclair = [PS2_5, PS2_4, PS2_ESC, PAUSE_CODE, PS2_4, PS2_3, PS2_1, PS2_2]"

definition layout_LeftSinclair_ext :: "bool list" where
  "layout_LeftSinclair_ext = [False, False, False, False, False, False, False, False]"

definition layout_RightSinclair :: "u8 list" where
  "layout_RightSinclair = [PS2_0, PS2_9, PS2_ESC, PAUSE_CODE, PS2_9, PS2_8, PS2_6, PS2_7]"

definition layout_RightSinclair_ext :: "bool list" where
  "layout_RightSinclair_ext = [False, False, False, False, False, False, False, False]"

definition layout_Emulator :: "u8 list" where
  "layout_Emulator =
     [PS2_2, PS2_3, PS2_F1, PS2_ENTER, PS2_EXT_UP, PS2_EXT_DOWN, PS2_EXT_LEFT, PS2_EXT_RIGHT]"

definition layout_Emulator_ext :: "bool list" where
  "layout_Emulator_ext = [False, False, False, False, True, True, True, True]"

definition layouts :: "u8 list list" where
  "layouts = [layout_QAOPM, layout_LeftSinclair, layout_RightSinclair, layout_Emulator]"

definition extFlags :: "bool list list" where
  "extFlags =
     [layout_QAOPM_ext, layout_LeftSinclair_ext, layout_RightSinclair_ext, layout_Emulator_ext]"

subsection \<open>Queue functions\<close>

text \<open>
  \<^verbatim>\<open>uint8_t next = (qHead + 1) % QUEUE_SIZE\<close>: the sum is an \<^verbatim>\<open>int\<close>, so it does not wrap
  at 256 before the remainder is taken.
\<close>

definition nextIndex :: "u8 \<Rightarrow> u8" where
  "nextIndex i = word_of_nat ((unat i + 1) mod QUEUE_SIZE)"

definition enqueue :: "u8 \<Rightarrow> state \<Rightarrow> state" where
  "enqueue b s =
     (let next = nextIndex (qHead s) in
      if next \<noteq> qTail s
      then s\<lparr>queue := (queue s)[unat (qHead s) := b], qHead := next\<rparr>
      else s)"

definition PAUSE_SEQ :: "u8 list" where
  "PAUSE_SEQ = [0xE1, 0x14, 0x77, 0xE1, 0xF0, 0x14, 0xF0, 0x77]"

text \<open>
  \<^verbatim>\<open>free\<close> is computed on \<^verbatim>\<open>int\<close> and then stored in a \<^verbatim>\<open>uint8_t\<close>. The loop body stores
  without testing for a full queue.
\<close>

definition pauseFree :: "state \<Rightarrow> u8" where
  "pauseFree s =
     (if qTail s > qHead s
      then word_of_int (uint (qTail s) - uint (qHead s) - 1)
      else word_of_int (int QUEUE_SIZE - (uint (qHead s) - uint (qTail s)) - 1))"

definition pauseStore :: "nat \<Rightarrow> state \<Rightarrow> state" where
  "pauseStore i s =
     (let n = nextIndex (qHead s) in
      s\<lparr>queue := (queue s)[unat (qHead s) := PAUSE_SEQ ! i], qHead := n\<rparr>)"

definition enqueuePause :: "state \<Rightarrow> state" where
  "enqueuePause s =
     (let free = pauseFree s in
      if free \<ge> 8 then fold pauseStore [0..<8] s else s)"

text \<open>
  \<^verbatim>\<open>safeWrite\<close> spins until the clock line and then the data line read high. If the peer
  never releases them the call does not return: \<open>None\<close>.
\<close>

definition safeWrite :: "cycle_input \<Rightarrow> u8 \<Rightarrow> state \<Rightarrow> state option" where
  "safeWrite inp b s = (if peerIdle inp then Some (s\<lparr>wire := wire s @ [b]\<rparr>) else None)"

definition processQueue :: "cycle_input \<Rightarrow> state \<Rightarrow> state option" where
  "processQueue inp s =
     (if qHead s = qTail s then Some s
      else if now inp - lastSendTime s < EVENT_INTERVAL_US then Some s
      else (case safeWrite inp (queue s ! unat (qTail s)) s of
              None \<Rightarrow> None
            | Some s1 \<Rightarrow>
                Some (s1\<lparr>qTail := nextIndex (qTail s1), lastSendTime := sentAt inp\<rparr>)))"

subsection \<open>PS/2 send functions\<close>

definition sendMake :: "u8 \<Rightarrow> bool \<Rightarrow> state \<Rightarrow> state" where
  "sendMake code ext s =
     (if code = NO_KEY then s
      else if code = PAUSE_CODE then enqueuePause s
      else enqueue code (if ext then enqueue 0xE0 s else s))"

definition sendBreak :: "u8 \<Rightarrow> bool \<Rightarrow> state \<Rightarrow> state" where
  "sendBreak code ext s =
     (if code = NO_KEY then s
      else if code = PAUSE_CODE then s
      else enqueue code (enqueue 0xF0 (if ext then enqueue 0xE0 s else s)))"

definition releaseStep :: "u8 list \<Rightarrow> bool list \<Rightarrow> nat \<Rightarrow> state \<Rightarrow> state" where
  "releaseStep keys ext i s =
     (if buttonState s ! i
      then (sendBreak (keys ! i) (ext ! i) s)\<lparr>buttonState := (buttonState s)[i := False]\<rparr>
      else s)"

definition releaseAll :: "u8 list \<Rightarrow> bool list \<Rightarrow> state \<Rightarrow> state" where
  "releaseAll keys ext s = fold (releaseStep keys ext) [0..<BUTTON_COUNT] s"

subsection \<open>EEPROM functions\<close>

text \<open>Byte structure: [1:0] = layout, [2] = swapAB, [7:3] = reserved.\<close>

definition saveConfig :: "state \<Rightarrow> state" where
  "saveConfig s =
     (let configByte = layout s OR push_bit 2 (of_bool (swapAB s)) in
      s\<lparr>eeprom := configByte, eepromWrites := eepromWrites s + 1\<rparr>)"

definition loadConfig :: "state \<Rightarrow> state" where
  "loadConfig s =
     (let configByte = eeprom s;
          loadedLayout = configByte AND 0x03 in
      if loadedLayout < LAYOUT_COUNT
      then s\<lparr>layout := loadedLayout, swapAB := (drop_bit 2 configByte AND 0x01 \<noteq> 0)\<rparr>
      else saveConfig (s\<lparr>layout := 2, swapAB := False\<rparr>))"

text \<open>\<^verbatim>\<open>setup\<close>: of its calls only \<^verbatim>\<open>loadConfig\<close> touches the modelled state.\<close>

definition setup_sketch :: "u8 \<Rightarrow> state" where
  "setup_sketch e = loadConfig (initial e)"

subsection \<open>Main loop\<close>

text \<open>\<^verbatim>\<open>!(state & (1 << i))\<close>: the button wired to bit \<open>i\<close> is down (the pad is active low).\<close>

definition down :: "u8 \<Rightarrow> nat \<Rightarrow> bool" where
  "down st i = (st AND push_bit i 1 = 0)"

definition delay :: "nat \<Rightarrow> state \<Rightarrow> state" where
  "delay ms s = s\<lparr>delayed := delayed s + ms\<rparr>"

text \<open>The chain of lines 468-472: the layout a held direction selects, if any.\<close>

definition layoutChoice :: "u8 \<Rightarrow> u8 option" where
  "layoutChoice st =
     (if down st 5 then Some 0
      else if down st 6 then Some 1
      else if down st 7 then Some 2
      else if down st 4 then Some 3
      else None)"

definition clearButtons :: "state \<Rightarrow> state" where
  "clearButtons s =
     s\<lparr>buttonState := fold (\<lambda>i bs. bs[i := False]) [0..<BUTTON_COUNT] (buttonState s)\<rparr>"

text \<open>
  The configuration block (lines 445-496) either leaves \<^verbatim>\<open>loop\<close> by its \<^verbatim>\<open>return\<close> or
  falls through to normal operation. In the layout branch the sketch assigns \<^verbatim>\<open>layout\<close>
  first and then calls \<^verbatim>\<open>releaseAll(keys, ext)\<close> with the pointers fetched at the top of
  \<^verbatim>\<open>loop\<close>, which still name the arrays of the old layout.
\<close>

datatype flow = Returned state | FallThrough state

text \<open>
  \<^verbatim>\<open>aPressed\<close> and \<^verbatim>\<open>bPressed\<close> (lines 446-447): down in this mask and up in the mask of the
  previous cycle.
\<close>

definition aPressed :: "u8 \<Rightarrow> u8 \<Rightarrow> bool" where
  "aPressed st lastSt = (down st 0 \<and> lastSt AND push_bit 0 1 \<noteq> 0)"

definition bPressed :: "u8 \<Rightarrow> u8 \<Rightarrow> bool" where
  "bPressed st lastSt = (down st 1 \<and> lastSt AND push_bit 1 1 \<noteq> 0)"

definition configurationMode :: "u8 \<Rightarrow> u8 list \<Rightarrow> bool list \<Rightarrow> state \<Rightarrow> flow" where
  "configurationMode st keys ext s =
     (if aPressed st (lastNesState s)
      then FallThrough (delay 300 (saveConfig (s\<lparr>swapAB := False\<rparr>)))
      else if bPressed st (lastNesState s)
      then FallThrough (delay 300 (saveConfig (s\<lparr>swapAB := True\<rparr>)))
      else (case layoutChoice st of
              None \<Rightarrow> FallThrough s
            | Some l \<Rightarrow>
                Returned
                  ((delay 300 (saveConfig (clearButtons (releaseAll keys ext (s\<lparr>layout := l\<rparr>)))))
                     \<lparr>lastNesState := st\<rparr>)))"

text \<open>
  Normal operation (lines 498-534): one pass of the \<^verbatim>\<open>for\<close> loop is \<open>buttonStep\<close>; the loop
  runs it for the buttons 0 to 7 in order, and line 534 stores the mask for the next cycle.
\<close>

definition buttonStep ::
  "u8 \<Rightarrow> u8 list \<Rightarrow> bool list \<Rightarrow> bool \<Rightarrow> bool \<Rightarrow> nat \<Rightarrow> state \<Rightarrow> state" where
  "buttonStep st keys ext logicA logicB i s =
     (let bitIndex = nesBitIndex ! i;
          pressed = (if i = 0 then logicA
                     else if i = 1 then logicB
                     else down st (unat bitIndex)) in
      if pressed \<and> \<not> buttonState s ! i
      then (sendMake (keys ! i) (ext ! i) s)\<lparr>buttonState := (buttonState s)[i := True]\<rparr>
      else if \<not> pressed \<and> buttonState s ! i
      then (sendBreak (keys ! i) (ext ! i) s)\<lparr>buttonState := (buttonState s)[i := False]\<rparr>
      else s)"

definition normalOperation :: "u8 \<Rightarrow> u8 list \<Rightarrow> bool list \<Rightarrow> state \<Rightarrow> state" where
  "normalOperation st keys ext s =
     (let physA = (st AND 0x01 = 0);
          physB = (st AND 0x02 = 0);
          logicA = (if swapAB s then physB else physA);
          logicB = (if swapAB s then physA else physB) in
      (fold (buttonStep st keys ext logicA logicB) [0..<BUTTON_COUNT] s)\<lparr>lastNesState := st\<rparr>)"

text \<open>Everything in \<^verbatim>\<open>loop\<close> after \<^verbatim>\<open>processQueue\<close> and \<^verbatim>\<open>readNES\<close>; \<open>st\<close> is the mask read.\<close>

definition loopBody :: "u8 \<Rightarrow> state \<Rightarrow> state" where
  "loopBody st s =
     (let keys = layouts ! unat (layout s);
          ext = extFlags ! unat (layout s);
          selectPressed = down st 2;
          s1 = (if selectPressed \<and> \<not> selectMode s
                then releaseAll keys ext (s\<lparr>selectMode := True\<rparr>) else s);
          s2 = (if \<not> selectPressed \<and> selectMode s1
                then s1\<lparr>selectMode := False\<rparr> else s1) in
      if selectMode s2
      then (case configurationMode st keys ext s2 of
              Returned s3 \<Rightarrow> s3
            | FallThrough s3 \<Rightarrow> normalOperation st keys ext s3)
      else normalOperation st keys ext s2)"

definition loop :: "cycle_input \<Rightarrow> state \<Rightarrow> state option" where
  "loop inp s =
     (case processQueue inp s of
        None \<Rightarrow> None
      | Some s1 \<Rightarrow> Some (loopBody (nes inp) s1))"

subsection \<open>What the queue holds\<close>

text \<open>
  The ring is well formed when the array has its 64 cells and both indices are inside it.
  Every assignment to \<^verbatim>\<open>qHead\<close> and \<^verbatim>\<open>qTail\<close> is a value modulo 64, so this holds from
  the initial state on. The resident bytes are those from \<^verbatim>\<open>qTail\<close> up to \<^verbatim>\<open>qHead\<close>,
  oldest first.
\<close>

definition qinv :: "state \<Rightarrow> bool" where
  "qinv s =
     (length (queue s) = QUEUE_SIZE \<and> unat (qHead s) < QUEUE_SIZE \<and> unat (qTail s) < QUEUE_SIZE)"

definition qcount :: "state \<Rightarrow> nat" where
  "qcount s = (unat (qHead s) + QUEUE_SIZE - unat (qTail s)) mod QUEUE_SIZE"

definition qfree :: "state \<Rightarrow> nat" where
  "qfree s = QUEUE_SIZE - 1 - qcount s"

definition pending :: "state \<Rightarrow> u8 list" where
  "pending s = map (\<lambda>k. queue s ! ((unat (qTail s) + k) mod QUEUE_SIZE)) [0..<qcount s]"

subsection \<open>Notions used in the statements\<close>

text \<open>The buttons whose flag is set, in index order, and one \<open>sendBreak\<close> for each of a list.\<close>

definition held :: "state \<Rightarrow> nat list" where
  "held s = filter (\<lambda>i. buttonState s ! i) [0..<BUTTON_COUNT]"

definition sendBreaks :: "u8 list \<Rightarrow> bool list \<Rightarrow> nat list \<Rightarrow> state \<Rightarrow> state" where
  "sendBreaks keys ext js s = fold (\<lambda>i. sendBreak (keys ! i) (ext ! i)) js s"


definition spec_encodeRelease :: "u8 \<Rightarrow> bool \<Rightarrow> u8 list" where
  "spec_encodeRelease code ext =
     (if code = NO_KEY \<or> code = PAUSE_CODE then []
      else (if ext then [0xE0] else []) @ [0xF0, code])"

text \<open>
  Whether logical button \<open>i\<close> counts as pressed under mask \<open>st\<close>: slots 0 and 1 take the
  A and B bits, exchanged when \<open>swap\<close> is set; the others take their own bit.
\<close>

definition pressedNow :: "u8 \<Rightarrow> bool \<Rightarrow> nat \<Rightarrow> bool" where
  "pressedNow st swap i =
     (if i = 0 then (if swap then down st 1 else down st 0)
      else if i = 1 then (if swap then down st 0 else down st 1)
      else down st i)"





text \<open>
  The state with which a cycle that reads Select down enters the configuration block:
  on the rising edge of Select the held keys have just been released.
\<close>

definition enterConfig :: "state \<Rightarrow> state" where
  "enterConfig s =
     (if selectMode s then s
      else releaseAll (layouts ! unat (layout s)) (extFlags ! unat (layout s))
             (s\<lparr>selectMode := True\<rparr>))"

text \<open>
  The states the sketch can be in: a well-formed ring, eight button flags and a layout
  index inside the table. Outside them the C code would index past an array.
\<close>

definition wf :: "state \<Rightarrow> bool" where
  "wf s = (qinv s \<and> length (buttonState s) = BUTTON_COUNT \<and> layout s < LAYOUT_COUNT)"

text \<open>
  The Arduino runtime calls \<^verbatim>\<open>loop\<close> again and again: \<open>cycles\<close> runs it once for each
  input of a list. \<open>quickCycle m\<close> is a cycle that reads mask \<open>m\<close> with the clock still at
  0, so inside the send interval. \<open>fullRing\<close> is the state after 21 presses and releases
  of A in layout 2 followed by Select and Start going down, none of it sent yet.
\<close>

fun cycles :: "cycle_input list \<Rightarrow> state \<Rightarrow> state option" where
  "cycles [] s = Some s"
| "cycles (inp # inps) s = (case loop inp s of None \<Rightarrow> None | Some s' \<Rightarrow> cycles inps s')"

definition quickCycle :: "u8 \<Rightarrow> cycle_input" where
  "quickCycle m = \<lparr>nes = m, now = 0, sentAt = 0, peerIdle = True\<rparr>"

definition fullRing :: state where
  "fullRing =
     \<lparr>queue = concat (replicate 21 [0x45, 0xF0, 0x45]) @ [0x00], qHead = 63, qTail = 0,
      lastSendTime = 0,
      buttonState = [False, False, True, True, False, False, False, False],
      layout = 2, swapAB = False, selectMode = True, lastNesState = 0xF3,
      eeprom = 2, eepromWrites = 0, wire = [], delayed = 0\<rparr>"

section \<open>The output queue\<close>

lemma mod64_once: "n < 128 \<Longrightarrow> n mod 64 = (if n < 64 then n else n - (64::nat))"
  by (simp add: le_mod_geq)

lemma ring_full:
  "h < 64 \<Longrightarrow> t < 64 \<Longrightarrow> ((h + 1) mod 64 = t) = (64 - 1 - (h + 64 - t) mod 64 = (0::nat))"
  by (simp add: mod64_once) arith

lemma ring_count_Suc:
  "h < 64 \<Longrightarrow> t < 64 \<Longrightarrow> (h + 64 - t) mod 64 < 63 \<Longrightarrow>
     ((h + 1) mod 64 + 64 - t) mod 64 = Suc ((h + 64 - t) mod (64::nat))"
  by (simp add: mod64_once split: if_splits; arith)

lemma ring_last: "h < 64 \<Longrightarrow> t < 64 \<Longrightarrow> (t + (h + 64 - t) mod 64) mod 64 = (h::nat)"
  by (simp add: mod64_once)

lemma ring_other:
  "h < 64 \<Longrightarrow> t < 64 \<Longrightarrow> k < (h + 64 - t) mod 64 \<Longrightarrow> (t + k) mod 64 \<noteq> (h::nat)"
  by (simp add: mod64_once split: if_splits; arith)

lemma unat_nextIndex: "unat (nextIndex i) = (unat i + 1) mod 64"
  by (simp add: nextIndex_def unat_of_nat take_bit_eq_mod)

lemma qcount_le: "qcount s \<le> 63"
  unfolding qcount_def by (rule less_Suc_eq_le[THEN iffD1]) simp

lemma full_iff: "qinv s \<Longrightarrow> (nextIndex (qHead s) = qTail s) = (qfree s = 0)"
  unfolding qinv_def qfree_def qcount_def word_unat_eq_iff unat_nextIndex
  by (simp only: ring_full)

lemma enqueue_full: "qinv s \<Longrightarrow> qfree s = 0 \<Longrightarrow> enqueue b s = s"
  by (simp add: enqueue_def Let_def full_iff)

lemma enqueue_room_eq:
  "qinv s \<Longrightarrow> 0 < qfree s \<Longrightarrow>
     enqueue b s = s\<lparr>queue := (queue s)[unat (qHead s) := b], qHead := nextIndex (qHead s)\<rparr>"
  by (simp add: enqueue_def Let_def full_iff)

text \<open>Storing at the head of a ring that is not full appends to the resident bytes.\<close>

lemma store_pending:
  fixes b :: u8
  assumes "qinv s" "0 < qfree s"
  defines "s' \<equiv> s\<lparr>queue := (queue s)[unat (qHead s) := b], qHead := nextIndex (qHead s)\<rparr>"
  shows "qinv s'" "qfree s' = qfree s - 1" "pending s' = pending s @ [b]"
proof -
  let ?h = "unat (qHead s)" and ?t = "unat (qTail s)"
  from assms(1) have len: "length (queue s) = 64" and h: "?h < 64" and t: "?t < 64"
    by (simp_all add: qinv_def)
  from assms(2) have c: "qcount s < 63" by (simp add: qfree_def)
  show "qinv s'" using len t by (simp add: s'_def qinv_def unat_nextIndex)
  have cnt: "qcount s' = Suc (qcount s)"
    using ring_count_Suc[OF h t] c by (simp add: s'_def qcount_def unat_nextIndex)
  then show "qfree s' = qfree s - 1" by (simp add: qfree_def)
  have last: "(?t + qcount s) mod 64 = ?h"
    using ring_last[OF h t] by (simp add: qcount_def)
  have other: "(?t + k) mod 64 \<noteq> ?h" if "k < qcount s" for k
    using ring_other[OF h t, of k] that by (simp add: qcount_def)
  have "pending s' = map (\<lambda>k. (queue s)[?h := b] ! ((?t + k) mod 64)) [0..<Suc (qcount s)]"
    by (simp add: pending_def cnt) (simp add: s'_def)
  also have "\<dots> = map (\<lambda>k. (queue s)[?h := b] ! ((?t + k) mod 64)) [0..<qcount s] @ [b]"
    using h len by (simp add: last)
  also have "map (\<lambda>k. (queue s)[?h := b] ! ((?t + k) mod 64)) [0..<qcount s] = pending s"
    unfolding pending_def by (rule map_cong) (simp_all add: other[symmetric])
  finally show "pending s' = pending s @ [b]" .
qed

lemma enqueue_room:
  assumes "qinv s" "0 < qfree s"
  shows "qinv (enqueue b s)" "qfree (enqueue b s) = qfree s - 1"
    "pending (enqueue b s) = pending s @ [b]"
  using store_pending[OF assms, of b] by (simp_all add: enqueue_room_eq[OF assms])

lemma enqueue_qinv: "qinv s \<Longrightarrow> qinv (enqueue b s)"
  by (cases "qfree s = 0") (simp_all add: enqueue_full enqueue_room)

section \<open>Persistent settings\<close>

lemma lt4_cases: "l < (4::u8) \<Longrightarrow> l = 0 \<or> l = 1 \<or> l = 2 \<or> l = 3"
  by (simp add: word_less_nat_alt word_unat_eq_iff) arith

lemma load_mask: "(b :: u8) AND 0x03 < 4"
proof -
  have "b AND 3 \<le> 3" by (rule word_and_le1)
  then show ?thesis by (simp add: word_le_nat_alt word_less_nat_alt)
qed

lemma save_load_layout: "l < 4 \<Longrightarrow> (l OR push_bit 2 (of_bool b)) AND 3 = (l::u8)"
  using lt4_cases[of l] by (cases b) auto

lemma save_load_swap:
  "l < 4 \<Longrightarrow> (drop_bit 2 ((l::u8) OR push_bit 2 (of_bool b)) AND 1 \<noteq> 0) = b"
  using lt4_cases[of l] by (cases b) auto

lemma loadConfig_accepts:
  "loadConfig s =
     s\<lparr>layout := eeprom s AND 0x03, swapAB := (drop_bit 2 (eeprom s) AND 0x01 \<noteq> 0)\<rparr>"
  by (simp add: loadConfig_def Let_def load_mask)

lemma low2_mod4: "unat ((b::u8) AND 0x03) = unat b mod 4"
proof -
  have "b AND 3 = take_bit 2 b"
    by (simp add: take_bit_eq_mask mask_eq_exp_minus_1)
  then show ?thesis by (simp add: unsigned_take_bit_eq take_bit_eq_mod unat_mod)
qed

lemma bit2_test: "(drop_bit 2 (b::u8) AND 1 \<noteq> 0) = bit b 2"
  by (simp add: bit_iff_odd_drop_bit and_one_eq mod_2_eq_odd)

text \<open>
  C6. For a layout index below 4 and either value of \<open>swapAB\<close>, \<open>saveConfig\<close> followed by
  \<open>loadConfig\<close> (at once, or by \<open>setup_sketch\<close> after a power cycle on the byte written)
  gives the same layout index and the same \<open>swapAB\<close>. Whatever byte is stored,
  \<open>loadConfig\<close> takes the layout from bits 1:0 and \<open>swapAB\<close> from bit 2, so bits 7:3
  have no influence.
\<close>

theorem saveConfig_loadConfig_roundtrip:
  assumes "layout s < LAYOUT_COUNT"
  shows "layout (loadConfig (saveConfig s)) = layout s
       \<and> swapAB (loadConfig (saveConfig s)) = swapAB s
       \<and> layout (setup_sketch (eeprom (saveConfig s))) = layout s
       \<and> swapAB (setup_sketch (eeprom (saveConfig s))) = swapAB s
       \<and> layout (loadConfig t) = eeprom t AND 0x03
       \<and> unat (layout (loadConfig t)) = unat (eeprom t) mod 4
       \<and> swapAB (loadConfig t) = bit (eeprom t) 2
       \<and> loadConfig (t\<lparr>eeprom := b\<rparr>) = (loadConfig (t\<lparr>eeprom := b AND 0x07\<rparr>))\<lparr>eeprom := b\<rparr>"
proof -
  have e: "eeprom (saveConfig s) = layout s OR push_bit 2 (of_bool (swapAB s))"
    by (simp add: saveConfig_def Let_def)
  have 1: "layout (loadConfig (saveConfig s)) = layout s"
    unfolding loadConfig_accepts using assms by (simp add: e save_load_layout)
  have 2: "swapAB (loadConfig (saveConfig s)) = swapAB s"
    unfolding loadConfig_accepts using save_load_swap[OF assms, of "swapAB s"] by (simp add: e)
  have 3: "layout (setup_sketch (eeprom (saveConfig s))) = layout s"
    unfolding setup_sketch_def loadConfig_accepts using assms
    by (simp add: e initial_def save_load_layout)
  have 4: "swapAB (setup_sketch (eeprom (saveConfig s))) = swapAB s"
    unfolding setup_sketch_def loadConfig_accepts
    using save_load_swap[OF assms, of "swapAB s"] by (simp add: e initial_def)
  have 5: "layout (loadConfig t) = eeprom t AND 0x03"
    by (simp add: loadConfig_accepts)
  have 6: "unat (layout (loadConfig t)) = unat (eeprom t) mod 4"
    by (simp add: loadConfig_accepts low2_mod4)
  have 7: "swapAB (loadConfig t) = bit (eeprom t) 2"
    by (simp add: loadConfig_accepts bit2_test)
  have m: "(b AND 7) AND 3 = b AND 3"
    by (simp add: and.assoc)
  have "bit (b AND 7) 2 = bit b 2"
    by (simp add: bit_and_iff)
  then have 8: "loadConfig (t\<lparr>eeprom := b\<rparr>) = (loadConfig (t\<lparr>eeprom := b AND 0x07\<rparr>))\<lparr>eeprom := b\<rparr>"
    by (simp add: loadConfig_accepts bit2_test m)
  from 1 2 3 4 5 6 7 8 show ?thesis by blast
qed

theorem saveConfig_loadConfig_roundtrip_witness:
  "layout (loadConfig (saveConfig (initial 0xFF\<lparr>layout := 3, swapAB := True\<rparr>))) = 3
   \<and> swapAB (loadConfig (saveConfig (initial 0xFF\<lparr>layout := 3, swapAB := True\<rparr>)))
   \<and> eeprom (saveConfig (initial 0xFF\<lparr>layout := 3, swapAB := True\<rparr>)) = 7
   \<and> layout (setup_sketch 7) = 3 \<and> swapAB (setup_sketch 7)"
  using saveConfig_loadConfig_roundtrip [of "initial 0xFF\<lparr>layout := 3, swapAB := True\<rparr>"]
  by (simp add: initial_def saveConfig_def)

text \<open>
  C10. For every stored byte the masked layout index is below \<open>LAYOUT_COUNT\<close>, so
  \<open>loadConfig\<close> always takes the accepting branch: it changes only \<open>layout\<close> and
  \<open>swapAB\<close>, and neither the EEPROM cell nor the count of EEPROM writes changes.
\<close>

theorem loadConfig_never_writes:
  "eeprom s AND 0x03 < LAYOUT_COUNT
   \<and> loadConfig s =
       s\<lparr>layout := eeprom s AND 0x03, swapAB := (drop_bit 2 (eeprom s) AND 0x01 \<noteq> 0)\<rparr>
   \<and> eepromWrites (loadConfig s) = eepromWrites s
   \<and> eeprom (loadConfig s) = eeprom s
   \<and> loadConfig s \<noteq> saveConfig (s\<lparr>layout := 2, swapAB := False\<rparr>)"
proof -
  have "eepromWrites (loadConfig s) \<noteq> eepromWrites (saveConfig (s\<lparr>layout := 2, swapAB := False\<rparr>))"
    by (simp add: loadConfig_accepts saveConfig_def Let_def)
  then have "loadConfig s \<noteq> saveConfig (s\<lparr>layout := 2, swapAB := False\<rparr>)"
    by metis
  then show ?thesis
    by (simp add: load_mask loadConfig_accepts)
qed

section \<open>The pause sequence and the drain\<close>

lemma unat_word_of_int_u8: "0 \<le> k \<Longrightarrow> k < 256 \<Longrightarrow> unat (word_of_int k :: u8) = nat k"
  by (simp add: unsigned_of_int take_bit_int_eq_self)

lemma unat_pauseFree:
  assumes "qinv s" shows "unat (pauseFree s) = qfree s"
proof -
  let ?h = "unat (qHead s)" and ?t = "unat (qTail s)"
  from assms have h: "?h < 64" and t: "?t < 64" by (simp_all add: qinv_def)
  show ?thesis
  proof (cases "qTail s > qHead s")
    case True
    then have lt: "?h < ?t" by (simp add: word_less_nat_alt)
    have "pauseFree s = word_of_int (int ?t - int ?h - 1)"
      using True by (simp only: pauseFree_def if_True uint_nat)
    moreover have "0 \<le> int ?t - int ?h - 1" "int ?t - int ?h - 1 < 256"
      using lt t by arith+
    ultimately have "unat (pauseFree s) = nat (int ?t - int ?h - 1)"
      by (simp only: unat_word_of_int_u8)
    also have "\<dots> = ?t - ?h - 1" using lt by arith
    also have "\<dots> = qfree s" using lt h t by (simp add: qfree_def qcount_def mod64_once)
    finally show ?thesis .
  next
    case False
    then have le: "?t \<le> ?h" by (simp add: word_less_nat_alt)
    have "pauseFree s = word_of_int (int QUEUE_SIZE - (int ?h - int ?t) - 1)"
      using False by (simp only: pauseFree_def if_False uint_nat)
    moreover have "0 \<le> int QUEUE_SIZE - (int ?h - int ?t) - 1"
      "int QUEUE_SIZE - (int ?h - int ?t) - 1 < 256"
      using le h by arith+
    ultimately have "unat (pauseFree s) = nat (int QUEUE_SIZE - (int ?h - int ?t) - 1)"
      by (simp only: unat_word_of_int_u8)
    also have "\<dots> = 63 - (?h - ?t)" using le h by arith
    also have "\<dots> = qfree s" using le h t by (simp add: qfree_def qcount_def mod64_once)
    finally show ?thesis .
  qed
qed

lemma pauseFree_ge8: "qinv s \<Longrightarrow> (pauseFree s \<ge> 8) = (8 \<le> qfree s)"
  by (simp add: word_le_nat_alt unat_pauseFree)

lemma pauseStore_room:
  assumes "qinv s" "0 < qfree s"
  shows "qinv (pauseStore i s)" "qfree (pauseStore i s) = qfree s - 1"
    "pending (pauseStore i s) = pending s @ [PAUSE_SEQ ! i]"
  using store_pending[OF assms, of "PAUSE_SEQ ! i"] by (simp_all add: pauseStore_def Let_def)

lemma fold_pauseStore:
  "qinv s \<Longrightarrow> length js \<le> qfree s \<Longrightarrow>
     qinv (fold pauseStore js s) \<and> qfree (fold pauseStore js s) = qfree s - length js
     \<and> pending (fold pauseStore js s) = pending s @ map (nth PAUSE_SEQ) js"
proof (induction js arbitrary: s)
  case Nil
  then show ?case by simp
next
  case (Cons j js)
  then have room: "0 < qfree s" by simp
  note st = pauseStore_room[OF Cons.prems(1) room, of j]
  have "length js \<le> qfree (pauseStore j s)" using Cons.prems(2) st(2) by simp
  from Cons.IH[OF st(1) this] show ?case by (simp add: st)
qed

lemma map_nth_PAUSE_SEQ: "map (nth PAUSE_SEQ) [0..<8] = PAUSE_SEQ"
proof -
  have "length PAUSE_SEQ = 8" by (simp add: PAUSE_SEQ_def)
  then show ?thesis using map_nth[of PAUSE_SEQ] by simp
qed

lemma enqueuePause_room:
  assumes "qinv s" "8 \<le> qfree s"
  shows "qinv (enqueuePause s)" "qfree (enqueuePause s) = qfree s - 8"
    "pending (enqueuePause s) = pending s @ PAUSE_SEQ"
proof -
  have e: "enqueuePause s = fold pauseStore [0..<8] s"
    using assms by (simp add: enqueuePause_def Let_def pauseFree_ge8)
  have "length [0..<8::nat] \<le> qfree s" using assms(2) by simp
  from fold_pauseStore[OF assms(1) this] show "qinv (enqueuePause s)"
    "qfree (enqueuePause s) = qfree s - 8" "pending (enqueuePause s) = pending s @ PAUSE_SEQ"
    by (simp_all add: e map_nth_PAUSE_SEQ)
qed

lemma enqueuePause_short: "qinv s \<Longrightarrow> qfree s < 8 \<Longrightarrow> enqueuePause s = s"
  by (simp add: enqueuePause_def Let_def pauseFree_ge8)

lemma enqueuePause_qinv: "qinv s \<Longrightarrow> qinv (enqueuePause s)"
  by (cases "8 \<le> qfree s") (simp_all add: enqueuePause_room enqueuePause_short)

lemma processQueue_qinv: "qinv s \<Longrightarrow> processQueue inp s = Some s' \<Longrightarrow> qinv s'"
  by (auto simp: processQueue_def safeWrite_def qinv_def unat_nextIndex split: if_splits)

lemma qinv_initial: "qinv (initial e)"
  by (simp add: qinv_def initial_def)

lemma length_pending: "length (pending s) = qcount s"
  by (simp add: pending_def)

lemma qTail_enqueuePause: "qTail (enqueuePause s) = qTail s"
proof -
  have "qTail (fold pauseStore js s) = qTail s" for js
    by (induction js arbitrary: s) (simp_all add: pauseStore_def Let_def)
  then show ?thesis by (simp add: enqueuePause_def Let_def)
qed

text \<open>
  C5. \<open>enqueue\<close> is a total function of the byte and the state (no loop, no wait). On a
  well-formed ring, \<open>enqueue\<close>, \<open>enqueuePause\<close> and a \<open>processQueue\<close> that returns keep the
  ring well formed, the resident bytes are never more than 63, and \<open>enqueue\<close> returns
  the state unchanged exactly when advancing the head would make it equal the tail
  (63 bytes resident); otherwise it appends the byte.
\<close>

theorem queue_bounded_nonblocking:
  assumes "qinv s"
  shows "qinv (enqueue b s) \<and> qinv (enqueuePause s)
       \<and> (case processQueue inp s of None \<Rightarrow> True | Some s' \<Rightarrow> qinv s')
       \<and> length (pending s) \<le> QUEUE_SIZE - 1
       \<and> length (pending (enqueue b s)) \<le> QUEUE_SIZE - 1
       \<and> length (pending (enqueuePause s)) \<le> QUEUE_SIZE - 1
       \<and> (if nextIndex (qHead s) = qTail s
          then enqueue b s = s \<and> length (pending s) = QUEUE_SIZE - 1
          else pending (enqueue b s) = pending s @ [b])"
proof -
  have 1: "qinv (enqueue b s)" using assms by (rule enqueue_qinv)
  have 2: "qinv (enqueuePause s)" using assms by (rule enqueuePause_qinv)
  have 3: "case processQueue inp s of None \<Rightarrow> True | Some s' \<Rightarrow> qinv s'"
    using processQueue_qinv[OF assms] by (simp split: option.split)
  have 4: "length (pending t) \<le> QUEUE_SIZE - 1" for t
    using qcount_le[of t] by (simp add: length_pending)
  have 5: "if nextIndex (qHead s) = qTail s
          then enqueue b s = s \<and> length (pending s) = QUEUE_SIZE - 1
          else pending (enqueue b s) = pending s @ [b]"
  proof (cases "nextIndex (qHead s) = qTail s")
    case True
    then have f: "qfree s = 0" using full_iff[OF assms] by simp
    then have "qcount s = 63" using qcount_le[of s] by (simp add: qfree_def)
    then show ?thesis using True f by (simp add: enqueue_full[OF assms] length_pending)
  next
    case False
    then have "0 < qfree s" using full_iff[OF assms] by simp
    then show ?thesis using False by (simp add: enqueue_room[OF assms])
  qed
  from 1 2 3 4 5 show ?thesis by blast
qed

theorem queue_bounded_nonblocking_witness:
  "qinv (initial 0\<lparr>qHead := 63\<rparr>)
   \<and> nextIndex (qHead (initial 0\<lparr>qHead := 63\<rparr>)) = qTail (initial 0\<lparr>qHead := 63\<rparr>)
   \<and> enqueue 0x45 (initial 0\<lparr>qHead := 63\<rparr>) = initial 0\<lparr>qHead := 63\<rparr>
   \<and> length (pending (initial 0\<lparr>qHead := 63\<rparr>)) = 63
   \<and> qinv (enqueuePause (initial 0\<lparr>qHead := 63\<rparr>))"
proof -
  have q: "qinv (initial 0\<lparr>qHead := 63\<rparr>)" by (simp add: qinv_def initial_def)
  have n: "nextIndex (qHead (initial 0\<lparr>qHead := 63\<rparr>)) = qTail (initial 0\<lparr>qHead := 63\<rparr>)"
    by (simp add: nextIndex_def initial_def)
  show ?thesis
    using queue_bounded_nonblocking[OF q, of "0x45"] q n by simp
qed

text \<open>
  C4. For the pause key \<open>0xFE\<close>, \<open>sendBreak\<close> returns the state unchanged. \<open>sendMake\<close>
  appends the eight bytes E1 14 77 E1 F0 14 F0 77 in this order when at least 8 slots
  are free, and returns the state unchanged (no byte stored) when fewer than 8 are free.
\<close>

theorem pause_all_or_nothing:
  assumes "qinv s"
  shows "sendBreak PAUSE_CODE ext s = s
       \<and> (if 8 \<le> qfree s
          then pending (sendMake PAUSE_CODE ext s)
                 = pending s @ [0xE1, 0x14, 0x77, 0xE1, 0xF0, 0x14, 0xF0, 0x77]
               \<and> qfree (sendMake PAUSE_CODE ext s) = qfree s - 8
               \<and> qTail (sendMake PAUSE_CODE ext s) = qTail s
          else sendMake PAUSE_CODE ext s = s)"
proof -
  have m: "sendMake PAUSE_CODE ext s = enqueuePause s" by (simp add: sendMake_def)
  have b: "sendBreak PAUSE_CODE ext s = s" by (simp add: sendBreak_def)
  show ?thesis
  proof (cases "8 \<le> qfree s")
    case True
    from enqueuePause_room[OF assms True] show ?thesis
      using True b by (simp add: m qTail_enqueuePause PAUSE_SEQ_def)
  next
    case False
    then show ?thesis using b enqueuePause_short[OF assms] by (simp add: m)
  qed
qed

theorem pause_all_or_nothing_witness:
  "qinv (initial 0) \<and> qfree (initial 0) = 63
   \<and> pending (sendMake PAUSE_CODE False (initial 0)) = [0xE1, 0x14, 0x77, 0xE1, 0xF0, 0x14, 0xF0, 0x77]
   \<and> sendBreak PAUSE_CODE False (initial 0) = initial 0
   \<and> qinv (initial 0\<lparr>qHead := 56\<rparr>) \<and> qfree (initial 0\<lparr>qHead := 56\<rparr>) = 7
   \<and> sendMake PAUSE_CODE False (initial 0\<lparr>qHead := 56\<rparr>) = initial 0\<lparr>qHead := 56\<rparr>"
proof -
  have q1: "qinv (initial 0)" by (simp add: qinv_def initial_def)
  have f1: "qfree (initial 0) = 63" by (simp add: qfree_def qcount_def initial_def)
  have p1: "pending (initial 0) = []" by (simp add: pending_def qcount_def initial_def)
  have q2: "qinv (initial 0\<lparr>qHead := 56\<rparr>)" by (simp add: qinv_def initial_def)
  have f2: "qfree (initial 0\<lparr>qHead := 56\<rparr>) = 7" by (simp add: qfree_def qcount_def initial_def)
  show ?thesis
    using pause_all_or_nothing[OF q1, of False] pause_all_or_nothing[OF q2, of False] q1 q2
    by (simp add: f1 f2 p1)
qed

section \<open>What the send functions leave alone\<close>

lemma upt8: "[0..<8] = [0, 1, 2, 3, 4, 5, 6, 7::nat]"
  by (simp add: upt_rec)

lemma enqueue_frame [simp]:
  "qTail (enqueue b s) = qTail s" "lastSendTime (enqueue b s) = lastSendTime s"
  "buttonState (enqueue b s) = buttonState s" "layout (enqueue b s) = layout s"
  "swapAB (enqueue b s) = swapAB s" "selectMode (enqueue b s) = selectMode s"
  "lastNesState (enqueue b s) = lastNesState s" "eeprom (enqueue b s) = eeprom s"
  "eepromWrites (enqueue b s) = eepromWrites s" "wire (enqueue b s) = wire s"
  "delayed (enqueue b s) = delayed s"
  by (simp_all add: enqueue_def Let_def)

lemma fold_pauseStore_frame:
  "qTail (fold pauseStore js s) = qTail s \<and> lastSendTime (fold pauseStore js s) = lastSendTime s
   \<and> buttonState (fold pauseStore js s) = buttonState s \<and> layout (fold pauseStore js s) = layout s
   \<and> swapAB (fold pauseStore js s) = swapAB s \<and> selectMode (fold pauseStore js s) = selectMode s
   \<and> lastNesState (fold pauseStore js s) = lastNesState s \<and> eeprom (fold pauseStore js s) = eeprom s
   \<and> eepromWrites (fold pauseStore js s) = eepromWrites s \<and> wire (fold pauseStore js s) = wire s
   \<and> delayed (fold pauseStore js s) = delayed s"
  by (induction js arbitrary: s) (simp_all add: pauseStore_def Let_def)

lemma enqueuePause_frame [simp]:
  "lastSendTime (enqueuePause s) = lastSendTime s"
  "buttonState (enqueuePause s) = buttonState s" "layout (enqueuePause s) = layout s"
  "swapAB (enqueuePause s) = swapAB s" "selectMode (enqueuePause s) = selectMode s"
  "lastNesState (enqueuePause s) = lastNesState s" "eeprom (enqueuePause s) = eeprom s"
  "eepromWrites (enqueuePause s) = eepromWrites s" "wire (enqueuePause s) = wire s"
  "delayed (enqueuePause s) = delayed s"
  by (simp_all add: enqueuePause_def Let_def fold_pauseStore_frame)

lemma sendMake_frame [simp]:
  "qTail (sendMake c e s) = qTail s" "lastSendTime (sendMake c e s) = lastSendTime s"
  "buttonState (sendMake c e s) = buttonState s" "layout (sendMake c e s) = layout s"
  "swapAB (sendMake c e s) = swapAB s" "selectMode (sendMake c e s) = selectMode s"
  "lastNesState (sendMake c e s) = lastNesState s" "eeprom (sendMake c e s) = eeprom s"
  "eepromWrites (sendMake c e s) = eepromWrites s" "wire (sendMake c e s) = wire s"
  "delayed (sendMake c e s) = delayed s"
  by (simp_all add: sendMake_def qTail_enqueuePause)

lemma sendBreak_frame [simp]:
  "qTail (sendBreak c e s) = qTail s" "lastSendTime (sendBreak c e s) = lastSendTime s"
  "buttonState (sendBreak c e s) = buttonState s" "layout (sendBreak c e s) = layout s"
  "swapAB (sendBreak c e s) = swapAB s" "selectMode (sendBreak c e s) = selectMode s"
  "lastNesState (sendBreak c e s) = lastNesState s" "eeprom (sendBreak c e s) = eeprom s"
  "eepromWrites (sendBreak c e s) = eepromWrites s" "wire (sendBreak c e s) = wire s"
  "delayed (sendBreak c e s) = delayed s"
  by (simp_all add: sendBreak_def)

text \<open>The send functions read only the ring, so they commute with updates of other globals.\<close>

lemma enqueue_commute:
  "enqueue b (s\<lparr>buttonState := bs\<rparr>) = (enqueue b s)\<lparr>buttonState := bs\<rparr>"
  "enqueue b (s\<lparr>selectMode := m\<rparr>) = (enqueue b s)\<lparr>selectMode := m\<rparr>"
  "enqueue b (s\<lparr>layout := l\<rparr>) = (enqueue b s)\<lparr>layout := l\<rparr>"
  "enqueue b (s\<lparr>swapAB := w\<rparr>) = (enqueue b s)\<lparr>swapAB := w\<rparr>"
  by (simp_all add: enqueue_def Let_def)

lemma pauseStore_commute:
  "pauseStore i (s\<lparr>buttonState := bs\<rparr>) = (pauseStore i s)\<lparr>buttonState := bs\<rparr>"
  "pauseStore i (s\<lparr>selectMode := m\<rparr>) = (pauseStore i s)\<lparr>selectMode := m\<rparr>"
  "pauseStore i (s\<lparr>layout := l\<rparr>) = (pauseStore i s)\<lparr>layout := l\<rparr>"
  "pauseStore i (s\<lparr>swapAB := w\<rparr>) = (pauseStore i s)\<lparr>swapAB := w\<rparr>"
  by (simp_all add: pauseStore_def Let_def)

lemma fold_pauseStore_commute:
  "fold pauseStore js (s\<lparr>buttonState := bs\<rparr>) = (fold pauseStore js s)\<lparr>buttonState := bs\<rparr>"
  "fold pauseStore js (s\<lparr>selectMode := m\<rparr>) = (fold pauseStore js s)\<lparr>selectMode := m\<rparr>"
  "fold pauseStore js (s\<lparr>layout := l\<rparr>) = (fold pauseStore js s)\<lparr>layout := l\<rparr>"
  "fold pauseStore js (s\<lparr>swapAB := w\<rparr>) = (fold pauseStore js s)\<lparr>swapAB := w\<rparr>"
  by (induction js arbitrary: s; simp add: pauseStore_commute)+

lemma enqueuePause_commute:
  "enqueuePause (s\<lparr>buttonState := bs\<rparr>) = (enqueuePause s)\<lparr>buttonState := bs\<rparr>"
  "enqueuePause (s\<lparr>selectMode := m\<rparr>) = (enqueuePause s)\<lparr>selectMode := m\<rparr>"
  "enqueuePause (s\<lparr>layout := l\<rparr>) = (enqueuePause s)\<lparr>layout := l\<rparr>"
  "enqueuePause (s\<lparr>swapAB := w\<rparr>) = (enqueuePause s)\<lparr>swapAB := w\<rparr>"
  by (simp_all add: enqueuePause_def Let_def pauseFree_def fold_pauseStore_commute)

lemma sendMake_commute:
  "sendMake c e (s\<lparr>buttonState := bs\<rparr>) = (sendMake c e s)\<lparr>buttonState := bs\<rparr>"
  "sendMake c e (s\<lparr>selectMode := m\<rparr>) = (sendMake c e s)\<lparr>selectMode := m\<rparr>"
  "sendMake c e (s\<lparr>layout := l\<rparr>) = (sendMake c e s)\<lparr>layout := l\<rparr>"
  "sendMake c e (s\<lparr>swapAB := w\<rparr>) = (sendMake c e s)\<lparr>swapAB := w\<rparr>"
  by (simp_all add: sendMake_def enqueue_commute enqueuePause_commute)

lemma sendBreak_commute:
  "sendBreak c e (s\<lparr>buttonState := bs\<rparr>) = (sendBreak c e s)\<lparr>buttonState := bs\<rparr>"
  "sendBreak c e (s\<lparr>selectMode := m\<rparr>) = (sendBreak c e s)\<lparr>selectMode := m\<rparr>"
  "sendBreak c e (s\<lparr>layout := l\<rparr>) = (sendBreak c e s)\<lparr>layout := l\<rparr>"
  "sendBreak c e (s\<lparr>swapAB := w\<rparr>) = (sendBreak c e s)\<lparr>swapAB := w\<rparr>"
  by (simp_all add: sendBreak_def enqueue_commute)

lemma sendMake_qinv: "qinv s \<Longrightarrow> qinv (sendMake c e s)"
  by (simp add: sendMake_def enqueue_qinv enqueuePause_qinv)

lemma sendBreak_qinv: "qinv s \<Longrightarrow> qinv (sendBreak c e s)"
  by (simp add: sendBreak_def enqueue_qinv)

section \<open>Releasing the held keys\<close>

lemma sendBreaks_frame [simp]:
  "qTail (sendBreaks keys ext js s) = qTail s"
  "lastSendTime (sendBreaks keys ext js s) = lastSendTime s"
  "buttonState (sendBreaks keys ext js s) = buttonState s"
  "layout (sendBreaks keys ext js s) = layout s"
  "swapAB (sendBreaks keys ext js s) = swapAB s"
  "selectMode (sendBreaks keys ext js s) = selectMode s"
  "lastNesState (sendBreaks keys ext js s) = lastNesState s"
  "eeprom (sendBreaks keys ext js s) = eeprom s"
  "eepromWrites (sendBreaks keys ext js s) = eepromWrites s"
  "wire (sendBreaks keys ext js s) = wire s"
  "delayed (sendBreaks keys ext js s) = delayed s"
  unfolding sendBreaks_def by (induction js arbitrary: s; simp)+

lemma sendBreaks_commute:
  "sendBreaks keys ext js (s\<lparr>buttonState := bs\<rparr>) = (sendBreaks keys ext js s)\<lparr>buttonState := bs\<rparr>"
  "sendBreaks keys ext js (s\<lparr>selectMode := m\<rparr>) = (sendBreaks keys ext js s)\<lparr>selectMode := m\<rparr>"
  "sendBreaks keys ext js (s\<lparr>layout := l\<rparr>) = (sendBreaks keys ext js s)\<lparr>layout := l\<rparr>"
  unfolding sendBreaks_def by (induction js arbitrary: s; simp add: sendBreak_commute)+

lemma fold_releaseStep:
  "distinct js \<Longrightarrow> \<forall>j\<in>set js. j < length (buttonState s) \<Longrightarrow>
     fold (releaseStep keys ext) js s =
       (sendBreaks keys ext (filter (\<lambda>i. buttonState s ! i) js) s)
         \<lparr>buttonState := fold (\<lambda>i bs. bs[i := False]) js (buttonState s)\<rparr>"
proof (induction js arbitrary: s)
  case Nil
  then show ?case by (simp add: sendBreaks_def)
next
  case (Cons j js)
  let ?bs = "buttonState s"
  let ?s1 = "releaseStep keys ext j s"
  have j: "j < length ?bs" and nj: "j \<notin> set js" and d: "distinct js"
    using Cons.prems by simp_all
  have same: "?bs[j := False] = ?bs" if "\<not> ?bs ! j"
    using j that by (simp add: list_update_same_conv)
  have bs1: "buttonState ?s1 = ?bs[j := False]"
    by (cases "?bs ! j") (simp_all add: releaseStep_def same)
  have "?bs[j := False] ! i = ?bs ! i" if "i \<in> set js" for i
    using nj that by (intro nth_list_update_neq) auto
  then have filt: "filter (\<lambda>i. ?bs[j := False] ! i) js = filter (\<lambda>i. ?bs ! i) js"
    by (intro filter_cong refl) simp
  have len: "\<forall>i\<in>set js. i < length (buttonState ?s1)"
    using Cons.prems(2) by (simp add: bs1)
  have "fold (releaseStep keys ext) (j # js) s = fold (releaseStep keys ext) js ?s1"
    by simp
  also have "\<dots> = (sendBreaks keys ext (filter (\<lambda>i. ?bs ! i) js) ?s1)
                      \<lparr>buttonState := fold (\<lambda>i bs. bs[i := False]) js (?bs[j := False])\<rparr>"
    using Cons.IH[OF d len] by (simp only: bs1 filt)
  also have "\<dots> = (sendBreaks keys ext (filter (\<lambda>i. ?bs ! i) (j # js)) s)
                      \<lparr>buttonState := fold (\<lambda>i bs. bs[i := False]) (j # js) ?bs\<rparr>"
    by (cases "?bs ! j") (simp_all add: releaseStep_def sendBreaks_commute same, simp_all add: sendBreaks_def)
  finally show ?case .
qed

lemma clear8: "length bs = 8 \<Longrightarrow> fold (\<lambda>i bs. bs[i := False]) [0..<8] bs = replicate 8 False"
  by (rule nth_equalityI) (auto simp: upt8 nth_list_update less_Suc_eq numeral_eq_Suc)

lemma releaseAll_eq:
  assumes "length (buttonState s) = BUTTON_COUNT"
  shows "releaseAll keys ext s =
           (sendBreaks keys ext (held s) s)\<lparr>buttonState := replicate BUTTON_COUNT False\<rparr>"
proof -
  have "\<forall>j\<in>set [0..<8]. j < length (buttonState s)" using assms by simp
  from fold_releaseStep[OF distinct_upt this] show ?thesis
    using assms by (simp add: releaseAll_def held_def clear8)
qed

section \<open>Bytes produced by the send functions\<close>

lemma fold_enqueue_room:
  "qinv s \<Longrightarrow> length bs \<le> qfree s \<Longrightarrow>
     qinv (fold enqueue bs s) \<and> qfree (fold enqueue bs s) = qfree s - length bs
     \<and> pending (fold enqueue bs s) = pending s @ bs"
proof (induction bs arbitrary: s)
  case Nil
  then show ?case by simp
next
  case (Cons b bs)
  then have room: "0 < qfree s" by simp
  note st = enqueue_room[OF Cons.prems(1) room, of b]
  have "length bs \<le> qfree (enqueue b s)" using Cons.prems(2) st(2) by simp
  from Cons.IH[OF st(1) this] show ?case by (simp add: st)
qed

lemma sendBreak_fold: "sendBreak c e s = fold enqueue (spec_encodeRelease c e) s"
  by (simp add: sendBreak_def spec_encodeRelease_def)


lemma sendBreaks_fold:
  "sendBreaks keys ext js s =
     fold enqueue (concat (map (\<lambda>i. spec_encodeRelease (keys ! i) (ext ! i)) js)) s"
  unfolding sendBreaks_def by (induction js arbitrary: s) (simp_all add: sendBreak_fold)



lemma sendBreaks_room:
  assumes "qinv s"
    "length (concat (map (\<lambda>i. spec_encodeRelease (keys ! i) (ext ! i)) js)) \<le> qfree s"
  shows "pending (sendBreaks keys ext js s) =
           pending s @ concat (map (\<lambda>i. spec_encodeRelease (keys ! i) (ext ! i)) js)"
  using fold_enqueue_room[OF assms] by (simp add: sendBreaks_fold)

lemma sendBreaks_qinv: "qinv s \<Longrightarrow> qinv (sendBreaks keys ext js s)"
  unfolding sendBreaks_def by (induction js arbitrary: s) (simp_all add: sendBreak_qinv)

lemma length_spec_encodeRelease: "length (spec_encodeRelease c e) \<le> 3"
  by (simp add: spec_encodeRelease_def)

lemma pending_update [simp]:
  "pending (s\<lparr>buttonState := bs\<rparr>) = pending s" "pending (s\<lparr>selectMode := m\<rparr>) = pending s"
  "pending (s\<lparr>layout := l\<rparr>) = pending s" "pending (s\<lparr>swapAB := w\<rparr>) = pending s"
  "pending (s\<lparr>lastNesState := st\<rparr>) = pending s" "pending (s\<lparr>eeprom := b\<rparr>) = pending s"
  "pending (s\<lparr>eepromWrites := n\<rparr>) = pending s" "pending (s\<lparr>delayed := d\<rparr>) = pending s"
  by (simp_all add: pending_def qcount_def)

lemma qinv_update [simp]:
  "qinv (s\<lparr>buttonState := bs\<rparr>) = qinv s" "qinv (s\<lparr>selectMode := m\<rparr>) = qinv s"
  "qinv (s\<lparr>layout := l\<rparr>) = qinv s" "qinv (s\<lparr>swapAB := w\<rparr>) = qinv s"
  "qinv (s\<lparr>lastNesState := st\<rparr>) = qinv s" "qinv (s\<lparr>eeprom := b\<rparr>) = qinv s"
  "qinv (s\<lparr>eepromWrites := n\<rparr>) = qinv s" "qinv (s\<lparr>delayed := d\<rparr>) = qinv s"
  by (simp_all add: qinv_def)

lemma qfree_update [simp]:
  "qfree (s\<lparr>buttonState := bs\<rparr>) = qfree s" "qfree (s\<lparr>selectMode := m\<rparr>) = qfree s"
  "qfree (s\<lparr>layout := l\<rparr>) = qfree s" "qfree (s\<lparr>swapAB := w\<rparr>) = qfree s"
  "qfree (s\<lparr>lastNesState := st\<rparr>) = qfree s" "qfree (s\<lparr>eeprom := b\<rparr>) = qfree s"
  "qfree (s\<lparr>eepromWrites := n\<rparr>) = qfree s" "qfree (s\<lparr>delayed := d\<rparr>) = qfree s"
  by (simp_all add: qfree_def qcount_def)

section \<open>The edge-detection loop\<close>

text \<open>The value \<open>pressed\<close> that \<open>buttonStep\<close> computes for button \<open>i\<close>.\<close>

lemma buttonStep_bs:
  assumes "i < length (buttonState s)"
  shows "buttonState (buttonStep st keys ext la lb i s) =
           (buttonState s)[i := (if i = 0 then la else if i = 1 then lb
                                  else down st (unat (nesBitIndex ! i)))]"
proof -
  define p where "p = (if i = 0 then la else if i = 1 then lb else down st (unat (nesBitIndex ! i)))"
  have step: "buttonState (buttonStep st keys ext la lb i s) =
      (if p \<and> \<not> buttonState s ! i then (buttonState s)[i := True]
       else if \<not> p \<and> buttonState s ! i then (buttonState s)[i := False]
       else buttonState s)"
    by (simp add: buttonStep_def Let_def p_def)
  have "buttonState (buttonStep st keys ext la lb i s) = (buttonState s)[i := p]"
    using list_update_id[of "buttonState s" i]
    by (cases p; cases "buttonState s ! i") (simp_all add: step)
  then show ?thesis by (simp add: p_def)
qed

lemma buttonStep_fix:
  assumes "buttonState s ! i = (if i = 0 then la else if i = 1 then lb
                                 else down st (unat (nesBitIndex ! i)))"
  shows "buttonStep st keys ext la lb i s = s"
  using assms by (simp add: buttonStep_def Let_def)

lemma buttonStep_length:
  "length (buttonState (buttonStep st keys ext la lb i s)) = length (buttonState s)"
  by (simp add: buttonStep_def Let_def)

lemma buttonStep_frame [simp]:
  "qTail (buttonStep st keys ext la lb i s) = qTail s"
  "lastSendTime (buttonStep st keys ext la lb i s) = lastSendTime s"
  "layout (buttonStep st keys ext la lb i s) = layout s"
  "swapAB (buttonStep st keys ext la lb i s) = swapAB s"
  "selectMode (buttonStep st keys ext la lb i s) = selectMode s"
  "lastNesState (buttonStep st keys ext la lb i s) = lastNesState s"
  "eeprom (buttonStep st keys ext la lb i s) = eeprom s"
  "eepromWrites (buttonStep st keys ext la lb i s) = eepromWrites s"
  "wire (buttonStep st keys ext la lb i s) = wire s"
  "delayed (buttonStep st keys ext la lb i s) = delayed s"
  by (simp_all add: buttonStep_def Let_def)

lemma buttonStep_qinv: "qinv s \<Longrightarrow> qinv (buttonStep st keys ext la lb i s)"
  by (simp add: buttonStep_def Let_def sendMake_qinv sendBreak_qinv)

lemma fold_buttonStep_frame:
  "qTail (fold (buttonStep st keys ext la lb) js s) = qTail s
   \<and> lastSendTime (fold (buttonStep st keys ext la lb) js s) = lastSendTime s
   \<and> layout (fold (buttonStep st keys ext la lb) js s) = layout s
   \<and> swapAB (fold (buttonStep st keys ext la lb) js s) = swapAB s
   \<and> selectMode (fold (buttonStep st keys ext la lb) js s) = selectMode s
   \<and> lastNesState (fold (buttonStep st keys ext la lb) js s) = lastNesState s
   \<and> eeprom (fold (buttonStep st keys ext la lb) js s) = eeprom s
   \<and> eepromWrites (fold (buttonStep st keys ext la lb) js s) = eepromWrites s
   \<and> wire (fold (buttonStep st keys ext la lb) js s) = wire s
   \<and> delayed (fold (buttonStep st keys ext la lb) js s) = delayed s
   \<and> length (buttonState (fold (buttonStep st keys ext la lb) js s)) = length (buttonState s)
   \<and> (qinv s \<longrightarrow> qinv (fold (buttonStep st keys ext la lb) js s))"
  by (induction js arbitrary: s) (simp_all add: buttonStep_length buttonStep_qinv)

lemma fold_buttonStep_bs:
  "distinct js \<Longrightarrow> \<forall>j\<in>set js. j < length (buttonState s) \<Longrightarrow> j \<in> set js \<Longrightarrow>
     buttonState (fold (buttonStep st keys ext la lb) js s) ! j =
       (if j = 0 then la else if j = 1 then lb else down st (unat (nesBitIndex ! j)))"
proof (induction js arbitrary: s)
  case Nil
  then show ?case by simp
next
  case (Cons i js)
  let ?s1 = "buttonStep st keys ext la lb i s"
  have len: "\<forall>k\<in>set js. k < length (buttonState ?s1)"
    using Cons.prems(2) by (simp add: buttonStep_length)
  have d: "distinct js" and ni: "i \<notin> set js" using Cons.prems(1) by simp_all
  show ?case
  proof (cases "j \<in> set js")
    case True
    from Cons.IH[OF d len True] show ?thesis by simp
  next
    case False
    then have ji: "j = i" using Cons.prems(3) by simp
    have i: "i < length (buttonState s)" using Cons.prems(2) by simp
    have keep: "buttonState (fold (buttonStep st keys ext la lb) ks t) ! i = buttonState t ! i"
      if "i \<notin> set ks" for ks t
      using that
    proof (induction ks arbitrary: t)
      case Nil
      then show ?case by simp
    next
      case (Cons k ks)
      then have "k \<noteq> i" by auto
      then have "buttonState (buttonStep st keys ext la lb k t) ! i = buttonState t ! i"
        by (simp add: buttonStep_def Let_def)
      with Cons show ?case by simp
    qed
    show ?thesis using keep[OF ni, of ?s1] i by (simp add: ji buttonStep_bs)
  qed
qed

lemma fold_buttonStep_fix:
  "\<forall>j\<in>set js. buttonState s ! j =
       (if j = 0 then la else if j = 1 then lb else down st (unat (nesBitIndex ! j))) \<Longrightarrow>
     fold (buttonStep st keys ext la lb) js s = s"
  by (induction js) (simp_all add: buttonStep_fix)

lemma lt8_cases:
  "i < 8 \<Longrightarrow> i = 0 \<or> i = 1 \<or> i = 2 \<or> i = 3 \<or> i = 4 \<or> i = 5 \<or> i = 6 \<or> i = (7::nat)"
  by arith

lemma unat_nesBitIndex: "i < 8 \<Longrightarrow> unat (nesBitIndex ! i) = i"
  using lt8_cases[of i] by (auto simp: nesBitIndex_def)

lemma phys_down: "(st AND 0x01 = 0) = down st 0" "(st AND 0x02 = 0) = down st 1"
  by (simp_all add: down_def)

lemma normalOperation_fold:
  "normalOperation st keys ext s =
     (fold (buttonStep st keys ext (pressedNow st (swapAB s) 0) (pressedNow st (swapAB s) 1))
        [0..<BUTTON_COUNT] s)\<lparr>lastNesState := st\<rparr>"
  by (simp add: normalOperation_def Let_def phys_down pressedNow_def)

lemma step_pressed:
  "j < 8 \<Longrightarrow>
     (if j = 0 then pressedNow st w 0 else if j = 1 then pressedNow st w 1
      else down st (unat (nesBitIndex ! j))) = pressedNow st w j"
  by (simp add: unat_nesBitIndex pressedNow_def)

lemma normalOperation_bs:
  assumes "length (buttonState s) = BUTTON_COUNT" "j < BUTTON_COUNT"
  shows "buttonState (normalOperation st keys ext s) ! j = pressedNow st (swapAB s) j"
proof -
  have "\<forall>k\<in>set [0..<8]. k < length (buttonState s)" using assms(1) by simp
  moreover have "j \<in> set [0..<8]" using assms(2) by simp
  ultimately show ?thesis
    using fold_buttonStep_bs[OF distinct_upt, of 0 8 s j st keys ext] assms(2)
    by (simp add: normalOperation_fold unat_nesBitIndex pressedNow_def)
qed

lemma normalOperation_frame [simp]:
  "qTail (normalOperation st keys ext s) = qTail s"
  "lastSendTime (normalOperation st keys ext s) = lastSendTime s"
  "layout (normalOperation st keys ext s) = layout s"
  "swapAB (normalOperation st keys ext s) = swapAB s"
  "selectMode (normalOperation st keys ext s) = selectMode s"
  "lastNesState (normalOperation st keys ext s) = st"
  "eeprom (normalOperation st keys ext s) = eeprom s"
  "eepromWrites (normalOperation st keys ext s) = eepromWrites s"
  "wire (normalOperation st keys ext s) = wire s"
  "delayed (normalOperation st keys ext s) = delayed s"
  "length (buttonState (normalOperation st keys ext s)) = length (buttonState s)"
  by (simp_all add: normalOperation_fold fold_buttonStep_frame)

lemma normalOperation_qinv: "qinv s \<Longrightarrow> qinv (normalOperation st keys ext s)"
  by (simp add: normalOperation_fold fold_buttonStep_frame)

lemma normalOperation_fix:
  assumes "\<forall>j<BUTTON_COUNT. buttonState s ! j = pressedNow st (swapAB s) j"
  shows "normalOperation st keys ext s = s\<lparr>lastNesState := st\<rparr>"
proof -
  have "\<forall>j\<in>set [0..<8]. buttonState s ! j =
          (if j = 0 then pressedNow st (swapAB s) 0 else if j = 1 then pressedNow st (swapAB s) 1
           else down st (unat (nesBitIndex ! j)))"
    using assms by (simp add: step_pressed)
  from fold_buttonStep_fix[OF this] show ?thesis by (simp add: normalOperation_fold)
qed

text \<open>
  C9. Whatever the mask, the key tables and the state (with its 8 button flags), the
  edge-detection step leaves every flag equal to what the mask says, and running the
  step again with the same mask returns the state of the first run: nothing is stored
  in the queue and no index moves.
\<close>

theorem edge_detection_idempotent:
  assumes "length (buttonState s) = BUTTON_COUNT"
  shows "normalOperation st keys ext (normalOperation st keys ext s)
           = normalOperation st keys ext s
       \<and> buttonState (normalOperation st keys ext s)
           = map (pressedNow st (swapAB s)) [0..<BUTTON_COUNT]"
proof -
  let ?r = "normalOperation st keys ext s"
  have len: "length (buttonState ?r) = 8" using assms by simp
  have agree: "\<forall>j<BUTTON_COUNT. buttonState ?r ! j = pressedNow st (swapAB ?r) j"
    using normalOperation_bs[OF assms] by simp
  have "normalOperation st keys ext ?r = ?r\<lparr>lastNesState := st\<rparr>"
    using agree by (rule normalOperation_fix)
  also have "\<dots> = ?r" by (simp add: normalOperation_fold)
  finally have 1: "normalOperation st keys ext ?r = ?r" .
  have 2: "buttonState ?r = map (pressedNow st (swapAB s)) [0..<BUTTON_COUNT]"
    using len normalOperation_bs[OF assms] by (intro nth_equalityI) simp_all
  from 1 2 show ?thesis by simp
qed

theorem edge_detection_idempotent_witness:
  "length (buttonState (setup_sketch 2)) = BUTTON_COUNT
   \<and> normalOperation 0xFE (layouts ! 2) (extFlags ! 2)
        (normalOperation 0xFE (layouts ! 2) (extFlags ! 2) (setup_sketch 2))
       = normalOperation 0xFE (layouts ! 2) (extFlags ! 2) (setup_sketch 2)
   \<and> buttonState (normalOperation 0xFE (layouts ! 2) (extFlags ! 2) (setup_sketch 2))
       = [True, False, False, False, False, False, False, False]"
proof -
  have l: "length (buttonState (setup_sketch 2)) = BUTTON_COUNT"
    by (simp add: setup_sketch_def loadConfig_accepts initial_def)
  have w: "swapAB (setup_sketch 2) = False"
    by (simp add: setup_sketch_def loadConfig_accepts initial_def)
  have m: "map (pressedNow 0xFE False) [0..<BUTTON_COUNT]
             = [True, False, False, False, False, False, False, False]"
    by (simp add: upt8 pressedNow_def down_def)
  show ?thesis
    using edge_detection_idempotent[OF l, of "0xFE" "layouts ! 2" "extFlags ! 2"] l
    by (simp add: w m)
qed

section \<open>Swapping A and B\<close>

lemma replicate8: "replicate 8 x = [x, x, x, x, x, x, x, x]"
  by (simp add: numeral_eq_Suc)

lemma loopBody_A_swapped:
  assumes "buttonState s = replicate BUTTON_COUNT False"
  shows "loopBody 0xFE (s\<lparr>swapAB := True\<rparr>) =
           (sendMake (layouts ! unat (layout s) ! 1) (extFlags ! unat (layout s) ! 1) s)
             \<lparr>buttonState := [False, True, False, False, False, False, False, False],
              swapAB := True, selectMode := False, lastNesState := 0xFE\<rparr>"
  using assms
  by (cases "selectMode s")
     (simp_all add: loopBody_def Let_def down_def normalOperation_def upt8 buttonStep_def
        nesBitIndex_def replicate8 sendMake_commute)

lemma loopBody_B_plain:
  assumes "buttonState s = replicate BUTTON_COUNT False"
  shows "loopBody 0xFD (s\<lparr>swapAB := False\<rparr>) =
           (sendMake (layouts ! unat (layout s) ! 1) (extFlags ! unat (layout s) ! 1) s)
             \<lparr>buttonState := [False, True, False, False, False, False, False, False],
              swapAB := False, selectMode := False, lastNesState := 0xFD\<rparr>"
  using assms
  by (cases "selectMode s")
     (simp_all add: loopBody_def Let_def down_def normalOperation_def upt8 buttonStep_def
        nesBitIndex_def replicate8 sendMake_commute)

lemma processQueue_swapAB:
  "processQueue inp (s\<lparr>swapAB := w\<rparr>) = map_option (\<lambda>t. t\<lparr>swapAB := w\<rparr>) (processQueue inp s)"
  by (simp add: processQueue_def safeWrite_def)

lemma processQueue_buttonState:
  "processQueue inp s = Some t \<Longrightarrow> buttonState t = buttonState s"
  by (auto simp: processQueue_def safeWrite_def split: if_splits)

lemma processQueue_nes: "processQueue (inp\<lparr>nes := m\<rparr>) s = processQueue inp s"
  by (simp add: processQueue_def safeWrite_def)

text \<open>
  C8. From a state with all eight flags clear and for any active layout, a cycle that
  reads "only A down" with \<open>swapAB\<close> set and a cycle that reads "only B down" with
  \<open>swapAB\<close> clear leave the same queue array, indices, wire log and button flags (or
  both never return); in both the controller part is one \<open>sendMake\<close> of the layout's
  entry for button B.
\<close>

theorem swap_invariant:
  assumes "buttonState s = replicate BUTTON_COUNT False"
  shows "map_option (\<lambda>t. (queue t, qHead t, qTail t, wire t, buttonState t))
           (loop (inp\<lparr>nes := 0xFE\<rparr>) (s\<lparr>swapAB := True\<rparr>))
         = map_option (\<lambda>t. (queue t, qHead t, qTail t, wire t, buttonState t))
           (loop (inp\<lparr>nes := 0xFD\<rparr>) (s\<lparr>swapAB := False\<rparr>))
       \<and> map_option pending (loop (inp\<lparr>nes := 0xFE\<rparr>) (s\<lparr>swapAB := True\<rparr>))
         = map_option pending (loop (inp\<lparr>nes := 0xFD\<rparr>) (s\<lparr>swapAB := False\<rparr>))
       \<and> pending (loopBody 0xFE (s\<lparr>swapAB := True\<rparr>))
         = pending (sendMake (layouts ! unat (layout s) ! 1) (extFlags ! unat (layout s) ! 1) s)
       \<and> pending (loopBody 0xFD (s\<lparr>swapAB := False\<rparr>))
         = pending (sendMake (layouts ! unat (layout s) ! 1) (extFlags ! unat (layout s) ! 1) s)"
proof -
  have body: "pending (loopBody 0xFE (s\<lparr>swapAB := True\<rparr>))
         = pending (sendMake (layouts ! unat (layout s) ! 1) (extFlags ! unat (layout s) ! 1) s)"
    "pending (loopBody 0xFD (s\<lparr>swapAB := False\<rparr>))
         = pending (sendMake (layouts ! unat (layout s) ! 1) (extFlags ! unat (layout s) ! 1) s)"
    by (simp_all add: loopBody_A_swapped[OF assms] loopBody_B_plain[OF assms])
  have loops: "map_option (\<lambda>t. (queue t, qHead t, qTail t, wire t, buttonState t))
           (loop (inp\<lparr>nes := 0xFE\<rparr>) (s\<lparr>swapAB := True\<rparr>))
         = map_option (\<lambda>t. (queue t, qHead t, qTail t, wire t, buttonState t))
           (loop (inp\<lparr>nes := 0xFD\<rparr>) (s\<lparr>swapAB := False\<rparr>))
       \<and> map_option pending (loop (inp\<lparr>nes := 0xFE\<rparr>) (s\<lparr>swapAB := True\<rparr>))
         = map_option pending (loop (inp\<lparr>nes := 0xFD\<rparr>) (s\<lparr>swapAB := False\<rparr>))"
  proof (cases "processQueue inp s")
    case None
    then show ?thesis by (simp add: loop_def processQueue_nes processQueue_swapAB)
  next
    case (Some t)
    have bs: "buttonState t = replicate BUTTON_COUNT False"
      using processQueue_buttonState[OF Some] assms by simp
    show ?thesis
      by (simp add: loop_def processQueue_nes processQueue_swapAB Some
            loopBody_A_swapped[OF bs] loopBody_B_plain[OF bs])
  qed
  from body loops show ?thesis by simp
qed

theorem swap_invariant_witness:
  "buttonState (setup_sketch 1) = replicate BUTTON_COUNT False
   \<and> map_option pending
        (loop \<lparr>nes = 0xFE, now = 0, sentAt = 0, peerIdle = True\<rparr> (setup_sketch 1\<lparr>swapAB := True\<rparr>))
       = Some [PS2_4]
   \<and> map_option pending
        (loop \<lparr>nes = 0xFD, now = 0, sentAt = 0, peerIdle = True\<rparr> (setup_sketch 1\<lparr>swapAB := False\<rparr>))
       = Some [PS2_4]"
proof -
  have b: "buttonState (setup_sketch 1) = replicate BUTTON_COUNT False"
    by (simp add: setup_sketch_def loadConfig_accepts initial_def)
  have e: "map_option pending
        (loop \<lparr>nes = 0xFD, now = 0, sentAt = 0, peerIdle = True\<rparr> (setup_sketch 1\<lparr>swapAB := False\<rparr>))
       = Some [PS2_4]"
    by code_simp
  show ?thesis
    using swap_invariant[OF b, of "\<lparr>nes = 0xFF, now = 0, sentAt = 0, peerIdle = True\<rparr>"] b e
    by simp
qed

section \<open>The layout table\<close>

lemmas layout_defs =
  layouts_def extFlags_def layout_QAOPM_def layout_QAOPM_ext_def layout_LeftSinclair_def
  layout_LeftSinclair_ext_def layout_RightSinclair_def layout_RightSinclair_ext_def
  layout_Emulator_def layout_Emulator_ext_def








section \<open>Configuration mode\<close>

lemma held_update [simp]:
  "held (s\<lparr>selectMode := m\<rparr>) = held s" "held (s\<lparr>layout := l\<rparr>) = held s"
  by (simp_all add: held_def)

lemma held_none: "buttonState s = replicate BUTTON_COUNT False \<Longrightarrow> held s = []"
  by (simp add: held_def replicate8 upt8)

lemma held_distinct: "distinct (held s)"
  by (simp add: held_def)

lemma held_set: "set (held s) = {i. i < BUTTON_COUNT \<and> buttonState s ! i}"
  by (auto simp: held_def)

lemma clearButtons_clear:
  "length (buttonState s) = BUTTON_COUNT \<Longrightarrow>
     clearButtons s = s\<lparr>buttonState := replicate BUTTON_COUNT False\<rparr>"
  by (simp add: clearButtons_def clear8)

text \<open>The state a layout switch to \<open>l\<close> leaves, from the state \<open>s\<close> the cycle started in.\<close>

lemma switch_from_config:
  assumes "length (buttonState s) = BUTTON_COUNT"
  shows "(delay 300 (saveConfig (clearButtons (releaseAll keys ext (s\<lparr>layout := l\<rparr>)))))
           \<lparr>lastNesState := st\<rparr> =
         (sendBreaks keys ext (held s) s)
           \<lparr>buttonState := replicate BUTTON_COUNT False, layout := l, lastNesState := st,
            eeprom := l OR push_bit 2 (of_bool (swapAB s)),
            eepromWrites := eepromWrites s + 1, delayed := delayed s + 300\<rparr>"
proof -
  have len: "length (buttonState (s\<lparr>layout := l\<rparr>)) = BUTTON_COUNT" using assms by simp
  show ?thesis
    by (simp add: releaseAll_eq[OF len] clearButtons_clear saveConfig_def delay_def Let_def
          sendBreaks_commute)
qed

lemma releaseStep_frame [simp]:
  "qTail (releaseStep keys ext i s) = qTail s"
  "lastSendTime (releaseStep keys ext i s) = lastSendTime s"
  "layout (releaseStep keys ext i s) = layout s"
  "swapAB (releaseStep keys ext i s) = swapAB s"
  "selectMode (releaseStep keys ext i s) = selectMode s"
  "lastNesState (releaseStep keys ext i s) = lastNesState s"
  "eeprom (releaseStep keys ext i s) = eeprom s"
  "eepromWrites (releaseStep keys ext i s) = eepromWrites s"
  "wire (releaseStep keys ext i s) = wire s"
  "delayed (releaseStep keys ext i s) = delayed s"
  "length (buttonState (releaseStep keys ext i s)) = length (buttonState s)"
  by (simp_all add: releaseStep_def)

lemma fold_releaseStep_frame:
  "qTail (fold (releaseStep keys ext) js s) = qTail s
   \<and> lastSendTime (fold (releaseStep keys ext) js s) = lastSendTime s
   \<and> layout (fold (releaseStep keys ext) js s) = layout s
   \<and> swapAB (fold (releaseStep keys ext) js s) = swapAB s
   \<and> selectMode (fold (releaseStep keys ext) js s) = selectMode s
   \<and> lastNesState (fold (releaseStep keys ext) js s) = lastNesState s
   \<and> eeprom (fold (releaseStep keys ext) js s) = eeprom s
   \<and> eepromWrites (fold (releaseStep keys ext) js s) = eepromWrites s
   \<and> wire (fold (releaseStep keys ext) js s) = wire s
   \<and> delayed (fold (releaseStep keys ext) js s) = delayed s
   \<and> length (buttonState (fold (releaseStep keys ext) js s)) = length (buttonState s)"
  by (induction js arbitrary: s) simp_all

lemma releaseAll_frame [simp]:
  "qTail (releaseAll keys ext s) = qTail s"
  "lastSendTime (releaseAll keys ext s) = lastSendTime s"
  "layout (releaseAll keys ext s) = layout s"
  "swapAB (releaseAll keys ext s) = swapAB s"
  "selectMode (releaseAll keys ext s) = selectMode s"
  "lastNesState (releaseAll keys ext s) = lastNesState s"
  "eeprom (releaseAll keys ext s) = eeprom s"
  "eepromWrites (releaseAll keys ext s) = eepromWrites s"
  "wire (releaseAll keys ext s) = wire s"
  "delayed (releaseAll keys ext s) = delayed s"
  "length (buttonState (releaseAll keys ext s)) = length (buttonState s)"
  by (simp_all add: releaseAll_def fold_releaseStep_frame)

lemma releaseAll_qinv: "qinv s \<Longrightarrow> qinv (releaseAll keys ext s)"
proof -
  have "qinv t \<Longrightarrow> qinv (fold (releaseStep keys ext) js t)" for js t
    by (induction js arbitrary: t) (simp_all add: releaseStep_def sendBreak_qinv)
  then show "qinv s \<Longrightarrow> qinv (releaseAll keys ext s)" by (simp add: releaseAll_def)
qed

text \<open>
  With Select down the cycle is a configuration cycle: on the rising edge the held keys
  are released first, otherwise the state enters the configuration block as it is.
\<close>

lemma loopBody_config:
  assumes "down st 2"
  shows "loopBody st s =
     (case configurationMode st (layouts ! unat (layout s)) (extFlags ! unat (layout s))
             (if selectMode s then s
              else releaseAll (layouts ! unat (layout s)) (extFlags ! unat (layout s))
                     (s\<lparr>selectMode := True\<rparr>)) of
        Returned s3 \<Rightarrow> s3
      | FallThrough s3 \<Rightarrow>
          normalOperation st (layouts ! unat (layout s)) (extFlags ! unat (layout s)) s3)"
  using assms by (simp add: loopBody_def Let_def)

lemma configurationMode_switch:
  assumes noA: "\<not> aPressed st (lastNesState s)"
    and noB: "\<not> bPressed st (lastNesState s)"
    and dir: "layoutChoice st = Some l"
  shows "configurationMode st keys ext s =
     Returned ((delay 300 (saveConfig (clearButtons (releaseAll keys ext (s\<lparr>layout := l\<rparr>)))))
                 \<lparr>lastNesState := st\<rparr>)"
proof -
  show ?thesis using noA noB by (simp add: configurationMode_def dir)
qed

lemma loopBody_switch:
  assumes len: "length (buttonState s) = BUTTON_COUNT"
    and sel: "down st 2"
    and noA: "\<not> aPressed st (lastNesState s)"
    and noB: "\<not> bPressed st (lastNesState s)"
    and dir: "layoutChoice st = Some l"
  shows "loopBody st s =
           (sendBreaks (layouts ! unat (layout s)) (extFlags ! unat (layout s)) (held s) s)
             \<lparr>buttonState := replicate BUTTON_COUNT False, layout := l, selectMode := True,
              lastNesState := st, eeprom := l OR push_bit 2 (of_bool (swapAB s)),
              eepromWrites := eepromWrites s + 1, delayed := delayed s + 300\<rparr>"
proof -
  let ?keys = "layouts ! unat (layout s)" and ?ext = "extFlags ! unat (layout s)"
  let ?s2 = "if selectMode s then s else releaseAll ?keys ?ext (s\<lparr>selectMode := True\<rparr>)"
  have last2: "lastNesState ?s2 = lastNesState s" by simp
  have len2: "length (buttonState ?s2) = BUTTON_COUNT" using len by simp
  have "loopBody st s =
          (delay 300 (saveConfig (clearButtons (releaseAll ?keys ?ext (?s2\<lparr>layout := l\<rparr>)))))
            \<lparr>lastNesState := st\<rparr>"
  proof -
    have noA2: "\<not> aPressed st (lastNesState ?s2)"
      unfolding last2 by (rule noA)
    have noB2: "\<not> bPressed st (lastNesState ?s2)"
      unfolding last2 by (rule noB)
    show ?thesis
      unfolding loopBody_config[OF sel] configurationMode_switch[OF noA2 noB2 dir] by simp
  qed
  also have "\<dots> = (sendBreaks ?keys ?ext (held ?s2) ?s2)
           \<lparr>buttonState := replicate BUTTON_COUNT False, layout := l, lastNesState := st,
            eeprom := l OR push_bit 2 (of_bool (swapAB ?s2)),
            eepromWrites := eepromWrites ?s2 + 1, delayed := delayed ?s2 + 300\<rparr>"
    by (rule switch_from_config[OF len2])
  also have "\<dots> = (sendBreaks ?keys ?ext (held s) s)
             \<lparr>buttonState := replicate BUTTON_COUNT False, layout := l, selectMode := True,
              lastNesState := st, eeprom := l OR push_bit 2 (of_bool (swapAB s)),
              eepromWrites := eepromWrites s + 1, delayed := delayed s + 300\<rparr>"
  proof (cases "selectMode s")
    case True
    then have "s\<lparr>selectMode := True\<rparr> = s" by simp
    then have "(sendBreaks ?keys ?ext (held s) s)\<lparr>selectMode := True\<rparr>
                 = sendBreaks ?keys ?ext (held s) s"
      by (metis sendBreaks_commute(2))
    then show ?thesis using True by simp
  next
    case False
    have len': "length (buttonState (s\<lparr>selectMode := True\<rparr>)) = BUTTON_COUNT" using len by simp
    have s2: "?s2 = (sendBreaks ?keys ?ext (held s) s)
                    \<lparr>buttonState := replicate BUTTON_COUNT False, selectMode := True\<rparr>"
      using False by (simp add: releaseAll_eq[OF len'] sendBreaks_commute)
    have h2: "held ?s2 = []" by (rule held_none) (simp add: s2)
    have nil: "sendBreaks ?keys ?ext [] ?s2 = ?s2" by (simp add: sendBreaks_def)
    show ?thesis unfolding h2 nil by (simp add: s2)
  qed
  finally show ?thesis .
qed

text \<open>
  Bytes are stored one by one while a slot is free; once the ring is full the rest of
  the list is dropped.
\<close>

lemma fold_enqueue_take:
  "qinv s \<Longrightarrow>
     qinv (fold enqueue bs s) \<and> qfree (fold enqueue bs s) = qfree s - length bs
     \<and> pending (fold enqueue bs s) = pending s @ take (qfree s) bs"
proof (induction bs arbitrary: s)
  case Nil
  then show ?case by simp
next
  case (Cons b bs)
  show ?case
  proof (cases "qfree s = 0")
    case True
    then have "enqueue b s = s" using Cons.prems by (simp add: enqueue_full)
    then show ?thesis using Cons.IH[OF Cons.prems] True by simp
  next
    case False
    then have room: "0 < qfree s" by simp
    note st = enqueue_room[OF Cons.prems room, of b]
    obtain n where n: "qfree s = Suc n" using room by (cases "qfree s") simp_all
    from Cons.IH[OF st(1)] show ?thesis by (simp add: st n)
  qed
qed

lemma sendBreaks_take:
  assumes "qinv s"
  shows "pending (sendBreaks keys ext js s) =
           pending s @ take (qfree s)
             (concat (map (\<lambda>i. spec_encodeRelease (keys ! i) (ext ! i)) js))"
  using fold_enqueue_take[OF assms] by (simp add: sendBreaks_fold)

text \<open>
  C1 as stated fails on a full queue. From power-on with layout 2, 43 cycles inside the
  send interval (A pressed and released 21 times, then Select and Start down) lead to
  \<open>fullRing\<close>: 63 bytes resident, the flags of Select and Start set. The next cycle reads
  Select, Start and Down: it is a layout switch to 0 and clears every flag, but the
  release of Escape (\<open>0xF0 0x76\<close> in layout 2) is not emitted: the queue is unchanged,
  both bytes were dropped by \<open>enqueue\<close>.
\<close>

theorem layout_switch_full_queue_drops_releases:
  "cycles (map quickCycle (concat (replicate 21 [0xFE, 0xFF]) @ [0xF3])) (setup_sketch 2)
     = Some fullRing
   \<and> wf fullRing \<and> qfree fullRing = 0 \<and> held fullRing = [2, 3]
   \<and> down 0xD3 2 \<and> aPressed 0xD3 (lastNesState fullRing) = False
   \<and> bPressed 0xD3 (lastNesState fullRing) = False \<and> layoutChoice 0xD3 = Some 0
   \<and> spec_encodeRelease (layouts ! unat (layout fullRing) ! 2)
        (extFlags ! unat (layout fullRing) ! 2) = [0xF0, PS2_ESC]
   \<and> loop (quickCycle 0xD3) fullRing = Some (loopBody 0xD3 fullRing)
   \<and> buttonState (loopBody 0xD3 fullRing) = replicate BUTTON_COUNT False
   \<and> layout (loopBody 0xD3 fullRing) = 0
   \<and> pending (loopBody 0xD3 fullRing) = pending fullRing
   \<and> queue (loopBody 0xD3 fullRing) = queue fullRing"
proof -
  have r: "cycles (map quickCycle (concat (replicate 21 [0xFE, 0xFF]) @ [0xF3])) (setup_sketch 2)
     = Some fullRing"
    by code_simp
  have a: "wf fullRing \<and> qfree fullRing = 0 \<and> held fullRing = [2, 3]
   \<and> down 0xD3 2 \<and> aPressed 0xD3 (lastNesState fullRing) = False
   \<and> bPressed 0xD3 (lastNesState fullRing) = False \<and> layoutChoice 0xD3 = Some 0
   \<and> spec_encodeRelease (layouts ! unat (layout fullRing) ! 2)
        (extFlags ! unat (layout fullRing) ! 2) = [0xF0, PS2_ESC]"
    by code_simp
  have b: "loop (quickCycle 0xD3) fullRing = Some (loopBody 0xD3 fullRing)
   \<and> buttonState (loopBody 0xD3 fullRing) = replicate BUTTON_COUNT False
   \<and> layout (loopBody 0xD3 fullRing) = 0
   \<and> pending (loopBody 0xD3 fullRing) = pending fullRing
   \<and> queue (loopBody 0xD3 fullRing) = queue fullRing"
    by code_simp
  from r a b show ?thesis by simp
qed

text \<open>
  C1, amended. Take a cycle that reads Select down, no fresh press of A or B, and a
  direction down that selects layout \<open>l\<close>. From any state with its 8 button flags, the
  cycle ends with all flags clear and the layout \<open>l\<close> stored. Its effect on the queue is
  one \<open>sendBreak\<close> for each button whose flag was set (each once, in index order), with
  the code and extended flag of the layout that was active when the cycle began. On a
  well-formed ring the bytes appended are the release encodings of those buttons, cut
  off after as many bytes as there were free slots; so when the queue has room for
  them, exactly one release encoding per set flag is appended. Nothing else happens in
  the cycle: the Select flag stays clear although the mask has Select down, which the
  edge-detection step would have set.
\<close>

theorem layout_switch_safety:
  assumes "length (buttonState s) = BUTTON_COUNT"
    and "down st 2"
    and "\<not> aPressed st (lastNesState s)"
    and "\<not> bPressed st (lastNesState s)"
    and "layoutChoice st = Some l"
  shows "loopBody st s =
           (sendBreaks (layouts ! unat (layout s)) (extFlags ! unat (layout s)) (held s) s)
             \<lparr>buttonState := replicate BUTTON_COUNT False, layout := l, selectMode := True,
              lastNesState := st, eeprom := l OR push_bit 2 (of_bool (swapAB s)),
              eepromWrites := eepromWrites s + 1, delayed := delayed s + 300\<rparr>
       \<and> buttonState (loopBody st s) = replicate BUTTON_COUNT False
       \<and> layout (loopBody st s) = l
       \<and> distinct (held s) \<and> set (held s) = {i. i < BUTTON_COUNT \<and> buttonState s ! i}
       \<and> (qinv s \<longrightarrow>
            pending (loopBody st s) =
              pending s @ take (qfree s)
                (concat (map (\<lambda>i. spec_encodeRelease (layouts ! unat (layout s) ! i)
                                    (extFlags ! unat (layout s) ! i)) (held s))))
       \<and> (qinv s \<and> length (concat (map (\<lambda>i. spec_encodeRelease (layouts ! unat (layout s) ! i)
                                              (extFlags ! unat (layout s) ! i)) (held s)))
                    \<le> qfree s \<longrightarrow>
            pending (loopBody st s) =
              pending s @ concat (map (\<lambda>i. spec_encodeRelease (layouts ! unat (layout s) ! i)
                                              (extFlags ! unat (layout s) ! i)) (held s)))
       \<and> pressedNow st (swapAB (loopBody st s)) 2 \<and> \<not> buttonState (loopBody st s) ! 2"
proof -
  note eq = loopBody_switch[OF assms]
  have 2: "buttonState (loopBody st s) = replicate BUTTON_COUNT False" by (simp add: eq)
  have 3: "layout (loopBody st s) = l" by (simp add: eq)
  have 4: "pending (loopBody st s) =
              pending s @ take (qfree s)
                (concat (map (\<lambda>i. spec_encodeRelease (layouts ! unat (layout s) ! i)
                                    (extFlags ! unat (layout s) ! i)) (held s)))"
    if "qinv s"
    using sendBreaks_take[OF that] by (simp add: eq)
  have 5: "pending (loopBody st s) =
              pending s @ concat (map (\<lambda>i. spec_encodeRelease (layouts ! unat (layout s) ! i)
                                              (extFlags ! unat (layout s) ! i)) (held s))"
    if "qinv s" "length (concat (map (\<lambda>i. spec_encodeRelease (layouts ! unat (layout s) ! i)
                                              (extFlags ! unat (layout s) ! i)) (held s)))
                    \<le> qfree s"
    using sendBreaks_room[OF that] by (simp add: eq)
  have 6: "pressedNow st (swapAB (loopBody st s)) 2" using assms(2) by (simp add: pressedNow_def)
  have 7: "\<not> buttonState (loopBody st s) ! 2" by (simp add: 2)
  from eq 2 3 held_distinct held_set 4 5 6 7 show ?thesis by blast
qed

theorem layout_switch_safety_witness:
  "length (buttonState (loopBody 0xFA (setup_sketch 3))) = BUTTON_COUNT
   \<and> buttonState (loopBody 0xFA (setup_sketch 3))
       = [True, False, True, False, False, False, False, False]
   \<and> layout (loopBody 0xFA (setup_sketch 3)) = 3
   \<and> pending (loopBody 0xFA (setup_sketch 3)) = [PS2_2, PS2_F1]
   \<and> down 0xDA 2 \<and> layoutChoice 0xDA = Some 0
   \<and> lastNesState (loopBody 0xFA (setup_sketch 3)) AND push_bit 0 1 = 0
   \<and> down 0xDA 1 = False
   \<and> buttonState (loopBody 0xDA (loopBody 0xFA (setup_sketch 3))) = replicate BUTTON_COUNT False
   \<and> layout (loopBody 0xDA (loopBody 0xFA (setup_sketch 3))) = 0
   \<and> pending (loopBody 0xDA (loopBody 0xFA (setup_sketch 3)))
       = [PS2_2, PS2_F1, 0xF0, PS2_2, 0xF0, PS2_F1]"
proof -
  let ?s = "loopBody 0xFA (setup_sketch 3)"
  have b: "buttonState ?s = [True, False, True, False, False, False, False, False]"
    by code_simp
  have len: "length (buttonState ?s) = BUTTON_COUNT" by (simp add: b)
  have l: "layout ?s = 3" by code_simp
  have p: "pending ?s = [PS2_2, PS2_F1]" by code_simp
  have sel: "down 0xDA 2" and dir: "layoutChoice 0xDA = Some 0" and nb: "down 0xDA 1 = False"
    by (simp_all add: down_def layoutChoice_def)
  have la: "lastNesState ?s AND push_bit 0 1 = 0" by code_simp
  have noA: "\<not> aPressed 0xDA (lastNesState ?s)" using la by (simp add: aPressed_def)
  have noB: "\<not> bPressed 0xDA (lastNesState ?s)" using nb by (simp add: bPressed_def)
  have q: "qinv ?s" by code_simp
  have f: "qfree ?s = 61" by code_simp
  have h: "held ?s = [0, 2]" by (simp add: held_def b upt8)
  have enc: "concat (map (\<lambda>i. spec_encodeRelease (layouts ! unat (layout ?s) ! i)
                                  (extFlags ! unat (layout ?s) ! i)) (held ?s))
               = [0xF0, PS2_2, 0xF0, PS2_F1]"
    unfolding h l by (simp add: layout_defs spec_encodeRelease_def)
  note th = layout_switch_safety[OF len sel noA noB dir]
  have room: "qinv ?s \<and> length (concat (map (\<lambda>i. spec_encodeRelease (layouts ! unat (layout ?s) ! i)
                                  (extFlags ! unat (layout ?s) ! i)) (held ?s))) \<le> qfree ?s"
    using q by (simp only: enc f) simp
  from th room have "pending (loopBody 0xDA ?s) =
      pending ?s @ concat (map (\<lambda>i. spec_encodeRelease (layouts ! unat (layout ?s) ! i)
                                  (extFlags ! unat (layout ?s) ! i)) (held ?s))"
    by blast
  then have pend: "pending (loopBody 0xDA ?s) = [PS2_2, PS2_F1, 0xF0, PS2_2, 0xF0, PS2_F1]"
    by (simp only: enc p) simp
  from th have "buttonState (loopBody 0xDA ?s) = replicate BUTTON_COUNT False"
    and "layout (loopBody 0xDA ?s) = 0"
    by blast+
  then show ?thesis using b len l p sel dir la nb pend by simp
qed

section \<open>What triggers a layout switch\<close>

lemma down_bit: "down st i = (\<not> bit st i)"
  by (simp add: down_def push_bit_of_1 and_exp_eq_0_iff_not_bit)

lemma enterConfig_frame [simp]:
  "lastNesState (enterConfig s) = lastNesState s" "layout (enterConfig s) = layout s"
  "swapAB (enterConfig s) = swapAB s" "eeprom (enterConfig s) = eeprom s"
  "eepromWrites (enterConfig s) = eepromWrites s" "delayed (enterConfig s) = delayed s"
  "selectMode (enterConfig s) = True"
  "length (buttonState (enterConfig s)) = length (buttonState s)"
  by (simp_all add: enterConfig_def)

lemma loopBody_enterConfig:
  assumes "down st 2"
  shows "loopBody st s =
     (case configurationMode st (layouts ! unat (layout s)) (extFlags ! unat (layout s))
             (enterConfig s) of
        Returned s3 \<Rightarrow> s3
      | FallThrough s3 \<Rightarrow>
          normalOperation st (layouts ! unat (layout s)) (extFlags ! unat (layout s)) s3)"
  unfolding enterConfig_def by (rule loopBody_config[OF assms])

lemma clearButtons_frame [simp]:
  "layout (clearButtons s) = layout s" "swapAB (clearButtons s) = swapAB s"
  "eeprom (clearButtons s) = eeprom s" "eepromWrites (clearButtons s) = eepromWrites s"
  "delayed (clearButtons s) = delayed s" "selectMode (clearButtons s) = selectMode s"
  by (simp_all add: clearButtons_def)

lemma saveConfig_frame [simp]:
  "layout (saveConfig s) = layout s" "swapAB (saveConfig s) = swapAB s"
  "eeprom (saveConfig s) = layout s OR push_bit 2 (of_bool (swapAB s))"
  "eepromWrites (saveConfig s) = eepromWrites s + 1"
  "delayed (saveConfig s) = delayed s" "selectMode (saveConfig s) = selectMode s"
  by (simp_all add: saveConfig_def Let_def)

lemma delay_frame [simp]:
  "layout (delay n s) = layout s" "swapAB (delay n s) = swapAB s"
  "eeprom (delay n s) = eeprom s" "eepromWrites (delay n s) = eepromWrites s"
  "delayed (delay n s) = delayed s + n" "selectMode (delay n s) = selectMode s"
  by (simp_all add: delay_def)

text \<open>
  C2 as stated fails: power on with layout 2 stored, then read "Select, A and Down
  down" in two consecutive cycles. The first cycle takes the A branch (A is fresh) and
  keeps layout 2; in the second cycle Down is already down in the previous mask, and
  the cycle still switches to layout 0 and writes the EEPROM.
\<close>

theorem layout_switch_on_held_direction:
  "layout (loopBody 0xDA (setup_sketch 2)) = 2
   \<and> selectMode (loopBody 0xDA (setup_sketch 2))
   \<and> down (lastNesState (loopBody 0xDA (setup_sketch 2))) 5
   \<and> down 0xDA 5
   \<and> layout (loopBody 0xDA (loopBody 0xDA (setup_sketch 2))) = 0
   \<and> eepromWrites (loopBody 0xDA (loopBody 0xDA (setup_sketch 2)))
       = eepromWrites (loopBody 0xDA (setup_sketch 2)) + 1"
  by code_simp

text \<open>
  C2, amended. In a cycle that reads Select down with no fresh press of A or B, a layout
  switch happens exactly when Down, Left, Right or Up is down in this cycle's mask,
  whatever the previous mask was: the new layout is 0 for Down, else 1 for Left, else 2
  for Right, else 3 for Up, the settings are written and the 300 ms delay is taken. With
  no direction down the layout, the EEPROM write count and the delay total are unchanged.
\<close>

theorem layout_switch_level_triggered:
  assumes "down st 2"
    and "\<not> aPressed st (lastNesState s)"
    and "\<not> bPressed st (lastNesState s)"
  shows "layoutChoice st =
           (if \<not> bit st 5 then Some 0 else if \<not> bit st 6 then Some 1
            else if \<not> bit st 7 then Some 2 else if \<not> bit st 4 then Some 3 else None)
       \<and> (case layoutChoice st of
            Some l \<Rightarrow> layout (loopBody st s) = l
                      \<and> eepromWrites (loopBody st s) = eepromWrites s + 1
                      \<and> delayed (loopBody st s) = delayed s + 300
          | None \<Rightarrow> layout (loopBody st s) = layout s
                    \<and> eepromWrites (loopBody st s) = eepromWrites s
                    \<and> delayed (loopBody st s) = delayed s)"
proof -
  have 1: "layoutChoice st =
           (if \<not> bit st 5 then Some 0 else if \<not> bit st 6 then Some 1
            else if \<not> bit st 7 then Some 2 else if \<not> bit st 4 then Some 3 else None)"
    by (simp add: layoutChoice_def down_bit)
  have noA: "\<not> aPressed st (lastNesState (enterConfig s))" using assms(2) by simp
  have noB: "\<not> bPressed st (lastNesState (enterConfig s))" using assms(3) by simp
  have 2: "case layoutChoice st of
            Some l \<Rightarrow> layout (loopBody st s) = l
                      \<and> eepromWrites (loopBody st s) = eepromWrites s + 1
                      \<and> delayed (loopBody st s) = delayed s + 300
          | None \<Rightarrow> layout (loopBody st s) = layout s
                    \<and> eepromWrites (loopBody st s) = eepromWrites s
                    \<and> delayed (loopBody st s) = delayed s"
  proof (cases "layoutChoice st")
    case None
    then have "configurationMode st keys ext (enterConfig s) = FallThrough (enterConfig s)"
      for keys ext
      using noA noB by (simp add: configurationMode_def)
    then show ?thesis by (simp add: None loopBody_enterConfig[OF assms(1)])
  next
    case (Some l)
    show ?thesis
      by (simp add: Some loopBody_enterConfig[OF assms(1)]
            configurationMode_switch[OF noA noB Some])
  qed
  from 1 2 show ?thesis by simp
qed

theorem layout_switch_level_triggered_witness:
  "down 0xDA 2
   \<and> aPressed 0xDA (lastNesState (loopBody 0xDA (setup_sketch 2))) = False
   \<and> bPressed 0xDA (lastNesState (loopBody 0xDA (setup_sketch 2))) = False
   \<and> layoutChoice 0xDA = Some 0
   \<and> layout (loopBody 0xDA (loopBody 0xDA (setup_sketch 2))) = 0
   \<and> delayed (loopBody 0xDA (loopBody 0xDA (setup_sketch 2)))
       = delayed (loopBody 0xDA (setup_sketch 2)) + 300"
proof -
  let ?s = "loopBody 0xDA (setup_sketch 2)"
  have sel: "down 0xDA 2" and dir: "layoutChoice 0xDA = Some 0"
    by (simp_all add: down_def layoutChoice_def)
  have a: "aPressed 0xDA (lastNesState ?s) = False" and b: "bPressed 0xDA (lastNesState ?s) = False"
    by code_simp+
  have noA: "\<not> aPressed 0xDA (lastNesState ?s)" using a by simp
  have noB: "\<not> bPressed 0xDA (lastNesState ?s)" using b by simp
  show ?thesis
    using layout_switch_level_triggered[OF sel noA noB] sel a b by (simp add: dir)
qed

section \<open>The A/B swap branch\<close>

lemma enterConfig_qinv: "qinv s \<Longrightarrow> qinv (enterConfig s)"
  by (simp add: enterConfig_def releaseAll_qinv)

lemma normalOperation_flags:
  assumes "length (buttonState s) = BUTTON_COUNT"
  shows "buttonState (normalOperation st keys ext s)
           = map (pressedNow st (swapAB s)) [0..<BUTTON_COUNT]"
proof -
  have "length (buttonState (normalOperation st keys ext s)) = 8" using assms by simp
  then show ?thesis using normalOperation_bs[OF assms] by (intro nth_equalityI) simp_all
qed

text \<open>
  C3 as stated fails: power on with layout 2, read "Select down" (configuration mode is
  entered and Escape is sent), then read "Select and A down". A is fresh, the swap
  branch runs (one EEPROM write, 300 ms), and the same cycle still runs the
  edge detection: the make code of A is queued and its flag is set.
\<close>

theorem swap_branch_then_edge_detection:
  "selectMode (loopBody 0xFB (setup_sketch 2))
   \<and> aPressed 0xFA (lastNesState (loopBody 0xFB (setup_sketch 2)))
   \<and> pending (loopBody 0xFB (setup_sketch 2)) = [PS2_ESC]
   \<and> buttonState (loopBody 0xFB (setup_sketch 2))
       = [False, False, True, False, False, False, False, False]
   \<and> eepromWrites (loopBody 0xFA (loopBody 0xFB (setup_sketch 2)))
       = eepromWrites (loopBody 0xFB (setup_sketch 2)) + 1
   \<and> delayed (loopBody 0xFA (loopBody 0xFB (setup_sketch 2)))
       = delayed (loopBody 0xFB (setup_sketch 2)) + 300
   \<and> pending (loopBody 0xFA (loopBody 0xFB (setup_sketch 2))) = [PS2_ESC, PS2_0]
   \<and> buttonState (loopBody 0xFA (loopBody 0xFB (setup_sketch 2)))
       = [True, False, True, False, False, False, False, False]"
  by code_simp

text \<open>
  C3, amended. In a cycle that reads Select down, a fresh press of A (or, failing that,
  of B) sets \<open>swapAB\<close> to false (true), writes the settings, takes the 300 ms delay and
  then falls through: the edge-detection step runs on the resulting state in the same
  cycle. The step runs in every configuration cycle except the one that switches the
  layout, which returns before it.
\<close>

theorem swap_branch_falls_through:
  assumes "down st 2"
  shows "loopBody st s =
          (if aPressed st (lastNesState s) then
             normalOperation st (layouts ! unat (layout s)) (extFlags ! unat (layout s))
               (delay 300 (saveConfig ((enterConfig s)\<lparr>swapAB := False\<rparr>)))
           else if bPressed st (lastNesState s) then
             normalOperation st (layouts ! unat (layout s)) (extFlags ! unat (layout s))
               (delay 300 (saveConfig ((enterConfig s)\<lparr>swapAB := True\<rparr>)))
           else (case layoutChoice st of
                   None \<Rightarrow>
                     normalOperation st (layouts ! unat (layout s)) (extFlags ! unat (layout s))
                       (enterConfig s)
                 | Some l \<Rightarrow>
                     (delay 300 (saveConfig (clearButtons
                        (releaseAll (layouts ! unat (layout s)) (extFlags ! unat (layout s))
                           ((enterConfig s)\<lparr>layout := l\<rparr>)))))\<lparr>lastNesState := st\<rparr>))
       \<and> (aPressed st (lastNesState s) \<or> bPressed st (lastNesState s) \<longrightarrow>
            swapAB (loopBody st s) = (\<not> aPressed st (lastNesState s))
            \<and> eeprom (loopBody st s)
                = layout s OR push_bit 2 (of_bool (\<not> aPressed st (lastNesState s)))
            \<and> eepromWrites (loopBody st s) = eepromWrites s + 1
            \<and> delayed (loopBody st s) = delayed s + 300
            \<and> lastNesState (loopBody st s) = st
            \<and> (length (buttonState s) = BUTTON_COUNT \<longrightarrow>
                 buttonState (loopBody st s)
                   = map (pressedNow st (\<not> aPressed st (lastNesState s))) [0..<BUTTON_COUNT]))"
proof -
  let ?keys = "layouts ! unat (layout s)" and ?ext = "extFlags ! unat (layout s)"
  have eq: "loopBody st s =
          (if aPressed st (lastNesState s) then
             normalOperation st ?keys ?ext (delay 300 (saveConfig ((enterConfig s)\<lparr>swapAB := False\<rparr>)))
           else if bPressed st (lastNesState s) then
             normalOperation st ?keys ?ext (delay 300 (saveConfig ((enterConfig s)\<lparr>swapAB := True\<rparr>)))
           else (case layoutChoice st of
                   None \<Rightarrow> normalOperation st ?keys ?ext (enterConfig s)
                 | Some l \<Rightarrow>
                     (delay 300 (saveConfig (clearButtons
                        (releaseAll ?keys ?ext ((enterConfig s)\<lparr>layout := l\<rparr>)))))
                       \<lparr>lastNesState := st\<rparr>))"
    by (simp add: loopBody_enterConfig[OF assms] configurationMode_def split: option.split)
  have len: "length (buttonState (delay 300 (saveConfig ((enterConfig s)\<lparr>swapAB := w\<rparr>))))
               = BUTTON_COUNT"
    if "length (buttonState s) = BUTTON_COUNT" for w
    using that by (simp add: delay_def saveConfig_def Let_def)
  have sw: "swapAB (loopBody st s) = (\<not> aPressed st (lastNesState s))
            \<and> eeprom (loopBody st s)
                = layout s OR push_bit 2 (of_bool (\<not> aPressed st (lastNesState s)))
            \<and> eepromWrites (loopBody st s) = eepromWrites s + 1
            \<and> delayed (loopBody st s) = delayed s + 300
            \<and> lastNesState (loopBody st s) = st
            \<and> (length (buttonState s) = BUTTON_COUNT \<longrightarrow>
                 buttonState (loopBody st s)
                   = map (pressedNow st (\<not> aPressed st (lastNesState s))) [0..<BUTTON_COUNT])"
    if "aPressed st (lastNesState s) \<or> bPressed st (lastNesState s)"
  proof (cases "aPressed st (lastNesState s)")
    case True
    show ?thesis
      using normalOperation_flags[OF len[of False], of st ?keys ?ext]
      by (auto simp: eq True)
  next
    case False
    then have b: "bPressed st (lastNesState s)" using that by simp
    show ?thesis
      using normalOperation_flags[OF len[of True], of st ?keys ?ext]
      by (auto simp: eq False b)
  qed
  from eq sw show ?thesis by blast
qed

theorem swap_branch_falls_through_witness:
  "down 0xFA 2
   \<and> swapAB (loopBody 0xFB (setup_sketch 6))
   \<and> aPressed 0xFA (lastNesState (loopBody 0xFB (setup_sketch 6)))
   \<and> swapAB (loopBody 0xFA (loopBody 0xFB (setup_sketch 6))) = False
   \<and> eeprom (loopBody 0xFA (loopBody 0xFB (setup_sketch 6))) = 2
   \<and> delayed (loopBody 0xFA (loopBody 0xFB (setup_sketch 6))) = 300
   \<and> buttonState (loopBody 0xFA (loopBody 0xFB (setup_sketch 6)))
       = [True, False, True, False, False, False, False, False]"
proof -
  let ?s = "loopBody 0xFB (setup_sketch 6)"
  have sel: "down 0xFA 2" by (simp add: down_def)
  have w: "swapAB ?s" and a: "aPressed 0xFA (lastNesState ?s)" and l: "layout ?s = 2"
    and d: "delayed ?s = 0" and len: "length (buttonState ?s) = BUTTON_COUNT"
    by code_simp+
  have m: "map (pressedNow 0xFA False) [0..<BUTTON_COUNT]
             = [True, False, True, False, False, False, False, False]"
    by (simp add: upt8 pressedNow_def down_def)
  from swap_branch_falls_through[OF sel, of ?s] a len
  have "swapAB (loopBody 0xFA ?s) = (\<not> aPressed 0xFA (lastNesState ?s))
        \<and> eeprom (loopBody 0xFA ?s)
            = layout ?s OR push_bit 2 (of_bool (\<not> aPressed 0xFA (lastNesState ?s)))
        \<and> delayed (loopBody 0xFA ?s) = delayed ?s + 300
        \<and> buttonState (loopBody 0xFA ?s)
            = map (pressedNow 0xFA (\<not> aPressed 0xFA (lastNesState ?s))) [0..<BUTTON_COUNT]"
    by blast
  then show ?thesis using sel w a by (simp add: l d m)
qed

section \<open>Reachable states\<close>

lemma clearButtons_more [simp]:
  "length (buttonState (clearButtons s)) = length (buttonState s)"
  "qinv (clearButtons s) = qinv s"
proof -
  have "length (fold (\<lambda>i bs. bs[i := False]) js bs) = length bs" for js and bs :: "bool list"
    by (induction js arbitrary: bs) simp_all
  then show "length (buttonState (clearButtons s)) = length (buttonState s)"
    by (simp add: clearButtons_def)
  show "qinv (clearButtons s) = qinv s" by (simp add: clearButtons_def)
qed

lemma saveConfig_delay_more [simp]:
  "buttonState (saveConfig s) = buttonState s" "qinv (saveConfig s) = qinv s"
  "buttonState (delay n s) = buttonState s" "qinv (delay n s) = qinv s"
  by (simp_all add: saveConfig_def delay_def Let_def)

lemma layoutChoice_range: "layoutChoice st = Some l \<Longrightarrow> l < LAYOUT_COUNT"
  by (auto simp: layoutChoice_def split: if_splits)

lemma wf_setup: "wf (setup_sketch e)"
  by (simp add: wf_def setup_sketch_def loadConfig_accepts load_mask qinv_def initial_def)

lemma wf_loopBody:
  assumes "wf s"
  shows "wf (loopBody st s)"
proof -
  let ?keys = "layouts ! unat (layout s)" and ?ext = "extFlags ! unat (layout s)"
  from assms have q: "qinv s" and len: "length (buttonState s) = BUTTON_COUNT"
    and l: "layout s < LAYOUT_COUNT"
    by (simp_all add: wf_def)
  show ?thesis
  proof (cases "down st 2")
    case True
    have qe: "qinv (enterConfig s)" using q by (rule enterConfig_qinv)
    show ?thesis
      unfolding loopBody_enterConfig[OF True] wf_def
      using qe len l
      by (auto simp: configurationMode_def normalOperation_qinv releaseAll_qinv
            layoutChoice_range split: option.splits)
  next
    case False
    then show ?thesis
      using q len l by (simp add: loopBody_def Let_def wf_def normalOperation_qinv)
  qed
qed

lemma wf_loop: "wf s \<Longrightarrow> loop inp s = Some s' \<Longrightarrow> wf s'"
proof -
  assume w: "wf s" and lp: "loop inp s = Some s'"
  from lp obtain s1 where p: "processQueue inp s = Some s1" and s': "s' = loopBody (nes inp) s1"
    by (auto simp: loop_def split: option.splits)
  have "buttonState s1 = buttonState s" using p by (rule processQueue_buttonState)
  moreover have "layout s1 = layout s"
    using p by (auto simp: processQueue_def safeWrite_def split: if_splits)
  moreover have "qinv s1" using w p by (auto simp: wf_def intro: processQueue_qinv)
  ultimately have "wf s1" using w by (simp add: wf_def)
  then show "wf s'" unfolding s' by (rule wf_loopBody)
qed

text \<open>A cycle returns unless the drain has a byte to send and the peer never frees the lines.\<close>

lemma loop_returns:
  "peerIdle inp \<or> qHead s = qTail s \<or> now inp - lastSendTime s < EVENT_INTERVAL_US \<Longrightarrow>
     \<exists>s'. loop inp s = Some s'"
  by (auto simp: loop_def processQueue_def safeWrite_def)

end
